theory Spec2Isabelle
  imports Main
begin

section \<open>Trit buffers\<close>

text \<open>
  The JavaScript works on \<^verbatim>\<open>Int8Array\<close> buffers whose entries are trits, that is
  the numbers -1, 0 and 1.  A buffer is a list of integers here; \<open>toInt8\<close> is the
  conversion a typed-array store applies to a number.
\<close>

type_synonym trits = "int list"

definition toInt8 :: "int \<Rightarrow> int" where
  "toInt8 v = (v + 128) mod 256 - 128"

definition isTrit :: "int \<Rightarrow> bool" where
  "isTrit t = (t = -1 \<or> t = 0 \<or> t = 1)"

definition isTrits :: "trits \<Rightarrow> bool" where
  "isTrits ts = list_all isTrit ts"

text \<open>\<^verbatim>\<open>arr.slice(b, e)\<close> and \<^verbatim>\<open>arr.subarray(b, e)\<close> for \<open>0 \<le> b\<close> and \<open>0 \<le> e\<close>:
  both ends are clamped to the length of the array.\<close>

definition slice :: "'a list \<Rightarrow> nat \<Rightarrow> nat \<Rightarrow> 'a list" where
  "slice arr b e = take (e - b) (drop b arr)"

text \<open>\<^verbatim>\<open>dst.set(src, off)\<close> for typed arrays, when \<open>src\<close> fits into \<open>dst\<close> at \<open>off\<close>.\<close>

definition setAt :: "'a list \<Rightarrow> 'a list \<Rightarrow> nat \<Rightarrow> 'a list" where
  "setAt dst src off = take off dst @ src @ drop (off + length src) dst"

section \<open>The Curl sponge\<close>

definition HASH_LENGTH :: nat where
  "HASH_LENGTH = 243"

definition STATE_LENGTH :: nat where
  "STATE_LENGTH = 3 * HASH_LENGTH"

definition TRUTH_TABLE :: "int list" where
  "TRUTH_TABLE = [1, 0, -1, 2, 1, -1, 0, 2, -1, 1, 0]"

text \<open>A read of \<^verbatim>\<open>Curl.TRUTH_TABLE[k]\<close>; outside the table the read is
  \<^verbatim>\<open>undefined\<close>, which an \<^verbatim>\<open>Int8Array\<close> stores as 0.\<close>

definition truthTable :: "int \<Rightarrow> int" where
  "truthTable k = (if 0 \<le> k \<and> k < int (length TRUTH_TABLE) then TRUTH_TABLE ! nat k else 0)"

record curl =
  state :: trits
  rounds :: nat

definition newCurl :: "nat \<Rightarrow> curl" where
  "newCurl r = \<lparr>state = replicate STATE_LENGTH 0, rounds = r\<rparr>"

definition reset :: "curl \<Rightarrow> curl" where
  "reset c = c\<lparr>state := replicate STATE_LENGTH 0\<rparr>"

definition rate :: "curl \<Rightarrow> nat \<Rightarrow> trits" where
  "rate c len = slice (state c) 0 len"

text \<open>One pass of the inner loop of \<^verbatim>\<open>transform\<close>: position \<open>i\<close> of the state is
  written from two reads of the copy, and the scanning index moves on.\<close>

definition transformStep :: "trits \<Rightarrow> nat \<Rightarrow> trits \<times> nat \<Rightarrow> trits \<times> nat" where
  "transformStep stateCopy i = (\<lambda>(st, index).
     let index' = (if index < 365 then index + 364 else index - 365)
     in (st[i := truthTable (stateCopy ! index + 4 * (stateCopy ! index') + 5)], index'))"

definition transformRound :: "trits \<times> nat \<Rightarrow> trits \<times> nat" where
  "transformRound = (\<lambda>(st, index). fold (transformStep st) [0..<STATE_LENGTH] (st, index))"

definition transform :: "curl \<Rightarrow> curl" where
  "transform c = c\<lparr>state := fst ((transformRound ^^ rounds c) (state c, 0))\<rparr>"

function absorb :: "curl \<Rightarrow> trits \<Rightarrow> nat \<Rightarrow> nat \<Rightarrow> curl" where
  "absorb c ts offset len =
     (let limit = (if len < HASH_LENGTH then len else HASH_LENGTH);
          c' = transform (c\<lparr>state := setAt (state c) (slice ts offset (offset + limit)) 0\<rparr>)
      in if len > HASH_LENGTH then absorb c' ts (offset + limit) (len - HASH_LENGTH) else c')"
  by pat_completeness auto
termination
  by (relation "measure (\<lambda>(c, ts, offset, len). len)") (auto simp: HASH_LENGTH_def)

declare absorb.simps [simp del]

text \<open>\<^verbatim>\<open>squeeze(trits, offset, length)\<close> returns the buffer written and the sponge.\<close>

function squeeze :: "curl \<Rightarrow> trits \<Rightarrow> nat \<Rightarrow> nat \<Rightarrow> trits \<times> curl" where
  "squeeze c ts offset len =
     (let limit = (if len < HASH_LENGTH then len else HASH_LENGTH);
          ts' = setAt ts (slice (state c) 0 limit) offset;
          c' = transform c
      in if len > HASH_LENGTH then squeeze c' ts' (offset + limit) (len - HASH_LENGTH) else (ts', c'))"
  by pat_completeness auto
termination
  by (relation "measure (\<lambda>(c, ts, offset, len). len)") (auto simp: HASH_LENGTH_def)

declare squeeze.simps [simp del]

section \<open>TrytesHelper\<close>

text \<open>\<^verbatim>\<open>tritsValue\<close> runs from the last trit down to the first.\<close>

definition tritsValue :: "trits \<Rightarrow> int" where
  "tritsValue ts = foldr (\<lambda>t v. v * 3 + t) ts 0"

section \<open>Pascal encoding\<close>

text \<open>JavaScript's 32-bit integer operators and its remainder, which takes the sign of
  the dividend.\<close>

definition toInt32 :: "int \<Rightarrow> int" where
  "toInt32 v = signed_take_bit 31 v"

definition jsShl :: "int \<Rightarrow> nat \<Rightarrow> int" where
  "jsShl a n = toInt32 (push_bit (n mod 32) (toInt32 a))"

definition jsShr :: "int \<Rightarrow> nat \<Rightarrow> int" where
  "jsShr a n = drop_bit (n mod 32) (toInt32 a)"

definition jsOr :: "int \<Rightarrow> int \<Rightarrow> int" where
  "jsOr a b = or (toInt32 a) (toInt32 b)"

definition jsAnd :: "int \<Rightarrow> int \<Rightarrow> int" where
  "jsAnd a b = and (toInt32 a) (toInt32 b)"

definition jsRem :: "int \<Rightarrow> int \<Rightarrow> int" where
  "jsRem a b = sgn a * (\<bar>a\<bar> mod \<bar>b\<bar>)"

definition ZERO :: trits where
  "ZERO = [1, 0, 0, -1]"

definition RADIX :: nat where
  "RADIX = 3"

definition TRITS_PER_TRYTE :: nat where
  "TRITS_PER_TRYTE = 3"

definition roundThird :: "nat \<Rightarrow> nat" where
  "roundThird v = (let rem = v mod RADIX in if rem = 0 then v else v + RADIX - rem)"

function minTrits :: "int \<Rightarrow> nat \<Rightarrow> nat" where
  "minTrits input basis =
     (if input \<le> int basis then 1 else 1 + minTrits input (1 + basis * RADIX))"
  by pat_completeness auto
termination
  by (relation "measure (\<lambda>(input, basis). nat (input - int basis))") (auto simp: RADIX_def)

declare minTrits.simps [simp del]

definition encodedLength :: "int \<Rightarrow> nat" where
  "encodedLength v = (let len = roundThird (minTrits \<bar>v\<bar> 1) in len + len div RADIX)"

text \<open>\<^verbatim>\<open>writeTrits\<close> calls itself until its input is 0.  Where it never gets there the
  JavaScript ends in a stack overflow; the model has no result (\<open>None\<close>).  The result is
  the count returned and the buffer written.\<close>

partial_function (option) writeTrits :: "int \<Rightarrow> trits \<Rightarrow> nat \<Rightarrow> (nat \<times> trits) option" where
  "writeTrits input ts index =
     (if input = 0 then Some (0, ts)
      else
        let abs0 = input div int RADIX;
            r0 = jsRem input (int RADIX);
            abs1 = (if r0 > 1 then abs0 + 1 else abs0);
            r = (if r0 > 1 then -1 else r0)
        in Option.bind (writeTrits abs1 (ts[index := toInt8 r]) (index + 1))
             (\<lambda>(n, ts'). Some (1 + n, ts')))"

declare writeTrits.simps [code]

definition valueToTrits :: "int \<Rightarrow> trits \<Rightarrow> (nat \<times> trits) option" where
  "valueToTrits input ts =
     Option.bind (writeTrits input ts 0) (\<lambda>(endWrite, ts').
       if input \<ge> 0 then Some (endWrite, ts')
       else Some (endWrite, fold (\<lambda>i t. t[i := toInt8 (- (t ! i))]) [0..<length ts'] ts'))"

text \<open>The body of the loop over the trytes before the last one; \<open>index\<close> counts the
  trytes and \<open>i = 3 * index\<close>.\<close>

definition encodeStep :: "nat \<Rightarrow> trits \<times> int \<Rightarrow> trits \<times> int" where
  "encodeStep index = (\<lambda>(ts, encoding).
     let i = index * TRITS_PER_TRYTE;
         tritValue = slice ts i (i + TRITS_PER_TRYTE);
         tritsAsInt = tritsValue tritValue
     in if tritsAsInt \<ge> 0
        then (fold (\<lambda>j t. t[i + j := toInt8 (- (tritValue ! j))]) [0..<length tritValue] ts,
              jsOr encoding (jsShl 1 index))
        else (ts, encoding))"

definition pascalEncode :: "int \<Rightarrow> trits option" where
  "pascalEncode v =
     (if v = 0 then Some ZERO
      else
        let len = roundThird (minTrits \<bar>v\<bar> 1) in
        Option.bind (valueToTrits v (replicate (encodedLength v) 0)) (\<lambda>(_, ts0).
          let n = len div TRITS_PER_TRYTE - 1;
              (ts1, encoding1) = fold encodeStep [0..<n] (ts0, 0);
              last = slice ts1 (len - TRITS_PER_TRYTE) (len - TRITS_PER_TRYTE + len);
              (ts2, encoding2) =
                (if tritsValue last < 0
                 then (fold (\<lambda>k t. t[k + len - TRITS_PER_TRYTE :=
                                toInt8 (- (t ! (k + len - TRITS_PER_TRYTE)))])
                         [0..<length last] ts1,
                       jsOr encoding1 (jsShl 1 n))
                 else (ts1, encoding1))
          in Option.bind (valueToTrits encoding2 (replicate (length ts2 - len) 0))
               (\<lambda>(_, checksumTrits).
                  Some (fold (\<lambda>i t. t[len + i := checksumTrits ! i])
                          [0..<length checksumTrits] ts2))))"

text \<open>\<^verbatim>\<open>end\<close> walks over the trytes until one has a positive value; it has no result
  on an input without one.\<close>

partial_function (option) endOf :: "trits \<Rightarrow> nat option" where
  "endOf input =
     (if tritsValue (slice input 0 TRITS_PER_TRYTE) > 0 then Some TRITS_PER_TRYTE
      else Option.bind (endOf (drop TRITS_PER_TRYTE input)) (\<lambda>e. Some (TRITS_PER_TRYTE + e)))"

declare endOf.simps [code]

record decoded =
  decValue :: int
  decEnd :: nat

definition decodeStep :: "trits \<Rightarrow> int \<Rightarrow> nat \<Rightarrow> int \<Rightarrow> int" where
  "decodeStep v encoder i result =
     (let tritsIntValue =
            (if jsAnd (jsShr encoder i) 1 \<noteq> 0
             then - tritsValue (slice v (i * TRITS_PER_TRYTE) ((i + 1) * TRITS_PER_TRYTE))
             else tritsValue (slice v (i * TRITS_PER_TRYTE) ((i + 1) * TRITS_PER_TRYTE)))
      in result + 27 ^ i * tritsIntValue)"

definition pascalDecode :: "trits \<Rightarrow> decoded option" where
  "pascalDecode v =
     (if length v \<ge> length ZERO \<and> v ! 0 = ZERO ! 0 \<and> v ! 1 = ZERO ! 1
          \<and> v ! 2 = ZERO ! 2 \<and> v ! 3 = ZERO ! 3
      then Some \<lparr>decValue = 0, decEnd = 4\<rparr>
      else Option.bind (endOf v) (\<lambda>encoderStart.
        let inputEnd = encoderStart + encoderStart div TRITS_PER_TRYTE;
            encoder = tritsValue (slice v encoderStart inputEnd);
            result = fold (decodeStep v encoder) [0..<encoderStart div TRITS_PER_TRYTE] 0
        in Some \<lparr>decValue = result, decEnd = inputEnd\<rparr>))"

section \<open>Signing: security of a hash\<close>

text \<open>The summation loops of \<^verbatim>\<open>checksumSecurity\<close>.\<close>

definition sumLoop :: "trits \<Rightarrow> int" where
  "sumLoop xs = fold (\<lambda>x s. s + x) xs 0"

definition checksumSecurity :: "trits \<Rightarrow> nat" where
  "checksumSecurity hash =
     (let sum1 = sumLoop (slice hash 0 (HASH_LENGTH div 3)) in
      if sum1 = 0 then 1
      else let sum2 = sumLoop (slice hash 0 (2 * HASH_LENGTH div 3)) in
        if sum2 = 0 then 2
        else let sum3 = sumLoop hash in
          if sum3 = 0 then 3 else 0)"

text \<open>The cumulative sum of the first \<open>L\<close> thirds of a hash.\<close>

definition thirdSum :: "trits \<Rightarrow> nat \<Rightarrow> int" where
  "thirdSum hash L = sum_list (take (L * 81) hash)"

section \<open>Masking\<close>

definition tritSum :: "int \<Rightarrow> int \<Rightarrow> int" where
  "tritSum left right =
     (let sum = left + right in if sum = 2 then -1 else if sum = -2 then 1 else sum)"

text \<open>The body of the loop of \<^verbatim>\<open>mask\<close> over the chunks; the loop carries the payload,
  the sponge and the key chunk.\<close>

definition maskChunk :: "nat \<Rightarrow> trits \<times> curl \<times> trits \<Rightarrow> trits \<times> curl \<times> trits" where
  "maskChunk c = (\<lambda>(payload, sponge, keyChunk).
     let chunk = slice payload (c * HASH_LENGTH) ((c + 1) * HASH_LENGTH);
         sponge' = absorb sponge chunk 0 (length chunk);
         st = rate sponge' HASH_LENGTH;
         (payload', keyChunk') =
            fold (\<lambda>i (p, k). (p[c * HASH_LENGTH + i := toInt8 (tritSum (chunk ! i) (k ! i))],
                                k[i := st ! i]))
              [0..<length chunk] (payload, keyChunk)
     in (payload', sponge', keyChunk'))"

text \<open>\<^verbatim>\<open>mask(payload, sponge)\<close>: the masked payload and the sponge after the call.\<close>

definition mask :: "trits \<Rightarrow> curl \<Rightarrow> trits \<times> curl" where
  "mask payload sponge =
     (let keyChunk = rate sponge HASH_LENGTH;
          numChunks = (length payload + HASH_LENGTH - 1) div HASH_LENGTH;
          (payload', sponge', _) = fold maskChunk [0..<numChunks] (payload, sponge, keyChunk)
      in (payload', sponge'))"

text \<open>The body of the loop of \<^verbatim>\<open>unmask\<close>, which runs over the positions up to the end
  of the last chunk.  Behind the end of the buffer the read is \<^verbatim>\<open>undefined\<close> and the
  store is dropped.  \<open>st\<close> is the
  variable \<^verbatim>\<open>state\<close>, set at the first position of every chunk.\<close>

definition unmaskStep :: "nat \<Rightarrow> trits \<times> curl \<times> trits \<Rightarrow> trits \<times> curl \<times> trits" where
  "unmaskStep c = (\<lambda>(unmasked, sponge, st).
     let indexInChunk = c mod HASH_LENGTH;
         st' = (if indexInChunk = 0 then rate sponge HASH_LENGTH else st);
         unmasked' = (if c < length unmasked
                      then unmasked[c := toInt8 (tritSum (unmasked ! c) (- (st' ! indexInChunk)))]
                      else unmasked);
         sponge' = (if indexInChunk = HASH_LENGTH - 1
                    then absorb sponge unmasked' ((c div HASH_LENGTH) * HASH_LENGTH) HASH_LENGTH
                    else sponge)
     in (unmasked', sponge', st'))"

definition unmask :: "trits \<Rightarrow> curl \<Rightarrow> trits \<times> curl" where
  "unmask payload sponge =
     (let limit = ((length payload + HASH_LENGTH - 1) div HASH_LENGTH) * HASH_LENGTH;
          (unmasked, sponge', _) = fold unmaskStep [0..<limit] (payload, sponge, [])
      in (unmasked, sponge'))"

section \<open>Signing (iss-p27)\<close>

definition PRIVATE_KEY_NUM_FRAGMENTS :: nat where
  "PRIVATE_KEY_NUM_FRAGMENTS = 27"

definition PRIVATE_KEY_FRAGMENT_LENGTH :: nat where
  "PRIVATE_KEY_FRAGMENT_LENGTH = PRIVATE_KEY_NUM_FRAGMENTS * HASH_LENGTH"

definition MIN_TRYTE_VALUE :: int where
  "MIN_TRYTE_VALUE = -13"

definition MAX_TRYTE_VALUE :: int where
  "MAX_TRYTE_VALUE = 13"

definition MIN_TRIT_VALUE :: int where
  "MIN_TRIT_VALUE = -1"

definition MAX_TRIT_VALUE :: int where
  "MAX_TRIT_VALUE = 1"

text \<open>\<^verbatim>\<open>dst.set(src, off)\<close> throws a \<^verbatim>\<open>RangeError\<close> when \<open>src\<close> does not fit.\<close>

definition setChecked :: "'a list \<Rightarrow> 'a list \<Rightarrow> nat \<Rightarrow> 'a list option" where
  "setChecked dst src off =
     (if off + length src \<le> length dst then Some (setAt dst src off) else None)"

text \<open>A loop whose body can throw: the first failure ends it.\<close>

definition foldOpt :: "('a \<Rightarrow> 'b \<Rightarrow> 'b option) \<Rightarrow> 'a list \<Rightarrow> 'b \<Rightarrow> 'b option" where
  "foldOpt f xs s = fold (\<lambda>x acc. Option.bind acc (f x)) xs (Some s)"

text \<open>The inner \<^verbatim>\<open>for\<close> loop of \<^verbatim>\<open>subseed\<close>: one increment of the preimage, with
  carry; the loop stops at the first trit that does not wrap.\<close>

fun incrementPreimage :: "trits \<Rightarrow> trits" where
  "incrementPreimage [] = []"
| "incrementPreimage (t # ts) =
     (if t \<ge> MAX_TRIT_VALUE then MIN_TRIT_VALUE # incrementPreimage ts else (t + 1) # ts)"

definition subseed :: "trits \<Rightarrow> int \<Rightarrow> trits" where
  "subseed seed index =
     (let sponge = newCurl 27;
          subseedPreimage = (incrementPreimage ^^ nat index) seed;
          sponge1 = absorb sponge subseedPreimage 0 (length subseedPreimage);
          ss = replicate HASH_LENGTH 0
      in fst (squeeze sponge1 ss 0 (length ss)))"

text \<open>The loop of \<^verbatim>\<open>digestFromSubseed\<close> over the fragments carries \<^verbatim>\<open>curl1\<close>,
  \<^verbatim>\<open>curl2\<close>, \<^verbatim>\<open>curl3\<close> and \<^verbatim>\<open>digest\<close>.\<close>

definition digestRound :: "curl \<times> trits \<Rightarrow> curl \<times> trits" where
  "digestRound = (\<lambda>(curl2, digest).
     let c = reset curl2;
         c' = absorb c digest 0 (length digest);
         (digest', c'') = squeeze c' digest 0 (length digest)
     in (c'', digest'))"

definition digestFragment :: "curl \<times> curl \<times> curl \<times> trits \<Rightarrow> curl \<times> curl \<times> curl \<times> trits" where
  "digestFragment = (\<lambda>(curl1, curl2, curl3, digest).
     let (digest1, curl1') = squeeze curl1 digest 0 (length digest);
         (curl2', digest2) =
            fold (\<lambda>k. digestRound) [0..<nat (MAX_TRYTE_VALUE - MIN_TRYTE_VALUE + 1)] (curl2, digest1);
         curl3' = absorb curl3 digest2 0 (length digest2)
     in (curl1', curl2', curl3', digest2))"

definition digestFromSubseed :: "trits \<Rightarrow> nat \<Rightarrow> trits" where
  "digestFromSubseed subSeed securityLevel =
     (let curl1 = newCurl 27; curl2 = newCurl 27; curl3 = newCurl 27;
          len = securityLevel * PRIVATE_KEY_FRAGMENT_LENGTH div HASH_LENGTH;
          digest = replicate HASH_LENGTH 0;
          curl1' = absorb curl1 subSeed 0 (length subSeed);
          (_, _, curl3', digest') = fold (\<lambda>i. digestFragment) [0..<len] (curl1', curl2, curl3, digest)
      in fst (squeeze curl3' digest' 0 (length digest')))"

definition address :: "trits \<Rightarrow> trits" where
  "address digests =
     (let sponge = absorb (newCurl 27) digests 0 (length digests);
          addressTrits = replicate HASH_LENGTH 0
      in fst (squeeze sponge addressTrits 0 (length addressTrits)))"

text \<open>In the loops below the sponge is reset before every use, so the state a use leaves
  behind is not carried along.\<close>

definition privateKeyFromSubseed :: "trits \<Rightarrow> nat \<Rightarrow> trits" where
  "privateKeyFromSubseed subSeed securityLevel =
     (let keyLength = securityLevel * PRIVATE_KEY_FRAGMENT_LENGTH;
          sponge = absorb (newCurl 27) subSeed 0 (length subSeed);
          (keyTrits, sponge') = squeeze sponge (replicate keyLength 0) 0 keyLength
      in fold (\<lambda>i actualKeyTrits.
                 let offset = i * HASH_LENGTH;
                     s = absorb (reset sponge') keyTrits offset HASH_LENGTH
                 in setAt actualKeyTrits (rate s HASH_LENGTH) offset)
           [0..<keyLength div HASH_LENGTH] (replicate keyLength 0))"

text \<open>The value \<^verbatim>\<open>hash[i * 3] + hash[i * 3 + 1] * 3 + hash[i * 3 + 2] * 9\<close>; it is
  \<^verbatim>\<open>NaN\<close> (\<open>None\<close>) when a read is behind the end of the hash, and then the loop it
  bounds does not run.\<close>

definition tryteAt :: "trits \<Rightarrow> nat \<Rightarrow> int option" where
  "tryteAt hash i =
     (if i * 3 + 2 < length hash
      then Some (hash ! (i * 3) + hash ! (i * 3 + 1) * 3 + hash ! (i * 3 + 2) * 9)
      else None)"

text \<open>One turn of the hash chain: \<^verbatim>\<open>sponge.reset(); sponge.absorb(buffer, 0,
  buffer.length); buffer = sponge.rate()\<close>.\<close>

definition chainStep :: "curl \<Rightarrow> trits \<Rightarrow> trits" where
  "chainStep sponge buffer = rate (absorb (reset sponge) buffer 0 (length buffer)) HASH_LENGTH"

definition signature :: "trits \<Rightarrow> trits \<Rightarrow> trits option" where
  "signature hashTrits key =
     (let sponge = newCurl 27 in
      foldOpt (\<lambda>i signatures.
                 let buffer = slice key (i * HASH_LENGTH) ((i + 1) * HASH_LENGTH);
                     n = (case tryteAt hashTrits i of None \<Rightarrow> 0
                          | Some tv \<Rightarrow> nat (MAX_TRYTE_VALUE - tv));
                     buffer' = fold (\<lambda>k. chainStep sponge) [0..<n] buffer
                 in setChecked signatures buffer' (i * HASH_LENGTH))
        [0..<(length key + HASH_LENGTH - 1) div HASH_LENGTH] (replicate (length key) 0))"

definition digestFromSignature :: "trits \<Rightarrow> trits \<Rightarrow> trits option" where
  "digestFromSignature hash sig =
     (let sponge = newCurl 27 in
      Option.bind
        (foldOpt (\<lambda>i bytes.
                 let innerBytes = slice sig (i * HASH_LENGTH) ((i + 1) * HASH_LENGTH);
                     n = (case tryteAt hash i of None \<Rightarrow> 0
                          | Some tv \<Rightarrow> nat (tv - MIN_TRYTE_VALUE));
                     innerBytes' = fold (\<lambda>j. chainStep sponge) [0..<n] innerBytes
                 in setChecked bytes innerBytes' (i * HASH_LENGTH))
           [0..<(length sig + HASH_LENGTH - 1) div HASH_LENGTH] (replicate (length sig) 0))
        (\<lambda>bytes. Some (rate (absorb (reset sponge) bytes 0 (length bytes)) HASH_LENGTH)))"

section \<open>HammingDiver: the bit-sliced search of the nonce\<close>

text \<open>
  The search works on \<^verbatim>\<open>big-integer\<close> values, which have no bound: they are integers
  here, with the bit operations of the integers.  A state is the object with the two
  arrays \<^verbatim>\<open>low\<close> and \<^verbatim>\<open>high\<close>.
\<close>

record searchStates =
  low :: "int list"
  high :: "int list"

definition MAX_VALUE :: int where
  "MAX_VALUE = 0xFFFFFFFFFFFFFFFF"

definition MIN_VALUE :: int where
  "MIN_VALUE = 0x0000000000000000"

definition HIGH_0 :: int where
  "HIGH_0 = 0xB6DB6DB6DB6DB6DB"

definition HIGH_1 :: int where
  "HIGH_1 = 0x8FC7E3F1F8FC7E3F"

definition HIGH_2 :: int where
  "HIGH_2 = 0xFFC01FFFF803FFFF"

definition HIGH_3 :: int where
  "HIGH_3 = 0x003FFFFFFFFFFFFF"

definition LOW_0 :: int where
  "LOW_0 = 0xDB6DB6DB6DB6DB6D"

definition LOW_1 :: int where
  "LOW_1 = 0xF1F8FC7E3F1F8FC7"

definition LOW_2 :: int where
  "LOW_2 = 0x7FFFE00FFFFC01FF"

definition LOW_3 :: int where
  "LOW_3 = 0xFFC0000007FFFFFF"

definition ROUNDS :: nat where
  "ROUNDS = 27"

definition tritsToBigInt :: "trits \<Rightarrow> nat \<Rightarrow> searchStates" where
  "tritsToBigInt input len =
     (let lo = map (\<lambda>t. if t = 0 then MAX_VALUE else if t = 1 then MIN_VALUE else MAX_VALUE) input;
          hi = map (\<lambda>t. if t = 0 then MAX_VALUE else if t = 1 then MAX_VALUE else MIN_VALUE) input
      in if length input \<ge> len then \<lparr>low = lo, high = hi\<rparr>
         else \<lparr>low = lo @ replicate (len - length input) MAX_VALUE,
               high = hi @ replicate (len - length input) MAX_VALUE\<rparr>)"

definition prepareTrits :: "trits \<Rightarrow> nat \<Rightarrow> searchStates" where
  "prepareTrits ts offset =
     (let initialState = tritsToBigInt ts STATE_LENGTH
      in \<lparr>low = (low initialState)[offset := LOW_0, offset + 1 := LOW_1,
                                     offset + 2 := LOW_2, offset + 3 := LOW_3],
          high = (high initialState)[offset := HIGH_0, offset + 1 := HIGH_1,
                                      offset + 2 := HIGH_2, offset + 3 := HIGH_3]\<rparr>)"

text \<open>The loop of \<^verbatim>\<open>increment\<close> from position \<open>i\<close> on; the result says whether it
  left by the \<^verbatim>\<open>return\<close> inside the loop.\<close>

function incrementFrom :: "searchStates \<Rightarrow> nat \<Rightarrow> nat \<Rightarrow> searchStates \<times> bool" where
  "incrementFrom states i toIndex =
     (if i < toIndex then
        let lo = low states ! i;
            hi = high states ! i;
            states' = states\<lparr>low := (low states)[i := xor hi lo], high := (high states)[i := lo]\<rparr>
        in if and hi (not lo) = 0 then (states', True)
           else incrementFrom states' (i + 1) toIndex
      else (states, False))"
  by pat_completeness auto
termination
  by (relation "measure (\<lambda>(states, i, toIndex). toIndex - i)") auto

declare incrementFrom.simps [simp del]

definition increment :: "searchStates \<Rightarrow> nat \<Rightarrow> nat \<Rightarrow> searchStates \<times> nat" where
  "increment states fromIndex toIndex =
     (let (states', returned) = incrementFrom states fromIndex toIndex
      in (states', if returned then toIndex - fromIndex else toIndex - fromIndex + 1))"

definition bitWiseNot :: "int \<Rightarrow> int" where
  "bitWiseNot v = push_bit 64 1 - 1 - v"

definition hdTransformStep ::
    "searchStates \<Rightarrow> nat \<Rightarrow> searchStates \<times> nat \<Rightarrow> searchStates \<times> nat" where
  "hdTransformStep curlScratchpad stateIndex = (\<lambda>(searchStates, curlScratchpadIndex).
     let alpha = low curlScratchpad ! curlScratchpadIndex;
         beta = high curlScratchpad ! curlScratchpadIndex;
         curlScratchpadIndex' =
           (if curlScratchpadIndex < 365 then curlScratchpadIndex + 364
            else curlScratchpadIndex - 365);
         gamma = high curlScratchpad ! curlScratchpadIndex';
         lowXorBeta = xor (low curlScratchpad ! curlScratchpadIndex') beta;
         notGamma = bitWiseNot gamma;
         alphaOrNotGamma = or alpha notGamma;
         delta = and alphaOrNotGamma lowXorBeta;
         alphaXorGamma = xor alpha gamma
     in (searchStates\<lparr>low := (low searchStates)[stateIndex := bitWiseNot delta],
                       high := (high searchStates)[stateIndex := or alphaXorGamma delta]\<rparr>,
         curlScratchpadIndex'))"

definition hdTransformRound :: "searchStates \<times> nat \<Rightarrow> searchStates \<times> nat" where
  "hdTransformRound = (\<lambda>(searchStates, curlScratchpadIndex).
     let curlScratchpad = \<lparr>low = slice (low searchStates) 0 STATE_LENGTH,
                            high = slice (high searchStates) 0 STATE_LENGTH\<rparr>
     in fold (hdTransformStep curlScratchpad) [0..<STATE_LENGTH] (searchStates, curlScratchpadIndex))"

definition hdTransform :: "searchStates \<Rightarrow> searchStates" where
  "hdTransform searchStates = fst ((hdTransformRound ^^ ROUNDS) (searchStates, 0))"

text \<open>The sum that \<^verbatim>\<open>check\<close> builds for lane \<open>i\<close>, from the third \<open>j\<close> on: the
  \<^verbatim>\<open>break\<close> leaves with the sum 1.\<close>

function checkThirds :: "nat \<Rightarrow> int list \<Rightarrow> int list \<Rightarrow> nat \<Rightarrow> nat \<Rightarrow> int \<Rightarrow> int" where
  "checkThirds securityLevel lo hi i j sum0 =
     (if j < securityLevel then
        let sum' = fold (\<lambda>k s. let bIndex = push_bit i 1 in
                            if and (lo ! k) bIndex = 0 then s - 1
                            else if and (hi ! k) bIndex = 0 then s + 1 else s)
                     [j * 243 div 3..<(j + 1) * 243 div 3] sum0
        in if sum' = 0 \<and> j + 1 < securityLevel then 1
           else checkThirds securityLevel lo hi i (j + 1) sum'
      else sum0)"
  by pat_completeness auto
termination
  by (relation "measure (\<lambda>(securityLevel, lo, hi, i, j, sum0). securityLevel - j)") auto

declare checkThirds.simps [simp del]

definition check :: "nat \<Rightarrow> int list \<Rightarrow> int list \<Rightarrow> nat" where
  "check securityLevel lo hi =
     (case find (\<lambda>i. checkThirds securityLevel lo hi i 0 0 = 0) [0..<64] of
        Some i \<Rightarrow> i
      | None \<Rightarrow> 0)"

definition trinaryGet :: "int list \<Rightarrow> int list \<Rightarrow> nat \<Rightarrow> nat \<Rightarrow> trits" where
  "trinaryGet lo hi arrLength index =
     map (\<lambda>i. let l = and (drop_bit index (lo ! i)) 1;
                   h = and (drop_bit index (hi ! i)) 1
               in if l = 1 \<and> h = 0 then -1 else if l = 0 \<and> h = 1 then 1 else 0)
       [0..<arrLength]"

text \<open>The loop of \<^verbatim>\<open>search\<close> runs until \<^verbatim>\<open>check\<close> gives a lane other than 0; it has
  no result when that never happens.\<close>

partial_function (option) searchLoop ::
    "nat \<Rightarrow> nat \<Rightarrow> searchStates \<Rightarrow> nat \<Rightarrow> trits option" where
  "searchLoop securityLevel offset st size0 =
     (let (st', incrementResult) = increment st (offset + size0 * 2 div 3) (offset + size0);
          size' = min (roundThird (offset + size0 * 2 div 3 + incrementResult)) HASH_LENGTH - offset;
          curlCopy = hdTransform \<lparr>low = slice (low st') 0 (length (low st')),
                                  high = slice (high st') 0 (length (high st'))\<rparr>;
          index = check securityLevel (low curlCopy) (high curlCopy)
      in if index = 0 then searchLoop securityLevel offset st' size'
         else Some (trinaryGet (low st') (high st') size' index))"

declare searchLoop.simps [code]

definition search :: "trits \<Rightarrow> nat \<Rightarrow> nat \<Rightarrow> nat \<Rightarrow> trits option" where
  "search ts securityLevel len offset =
     (let st = prepareTrits ts offset;
          size0 = min len HASH_LENGTH - offset
      in searchLoop securityLevel offset st size0)"

section \<open>TrytesHelper: trytes and trits\<close>

definition ALPHABET :: string where
  "ALPHABET = ''9ABCDEFGHIJKLMNOPQRSTUVWXYZ''"

definition TRYTES_TRITS :: "trits list" where
  "TRYTES_TRITS =
     [[0, 0, 0], [1, 0, 0], [-1, 1, 0], [0, 1, 0], [1, 1, 0], [-1, -1, 1], [0, -1, 1],
      [1, -1, 1], [-1, 0, 1], [0, 0, 1], [1, 0, 1], [-1, 1, 1], [0, 1, 1], [1, 1, 1],
      [-1, -1, -1], [0, -1, -1], [1, -1, -1], [-1, 0, -1], [0, 0, -1], [1, 0, -1],
      [-1, 1, -1], [0, 1, -1], [1, 1, -1], [-1, -1, 0], [0, -1, 0], [1, -1, 0], [-1, 0, 0]]"

text \<open>\<^verbatim>\<open>indexOf\<close>, and the search of the inner loop of \<^verbatim>\<open>fromTrits\<close>: the first position
  that holds the element, if any.\<close>

fun indexOf :: "'a list \<Rightarrow> 'a \<Rightarrow> nat option" where
  "indexOf [] c = None"
| "indexOf (x # xs) c = (if x = c then Some 0 else map_option Suc (indexOf xs c))"

text \<open>\<^verbatim>\<open>/^[9A-Z]{81}$/\<close> and \<^verbatim>\<open>/^[9A-Z]+$/\<close>.\<close>

definition isHash :: "string \<Rightarrow> bool" where
  "isHash trytes = (length trytes = 81 \<and> list_all (\<lambda>c. c \<in> set ALPHABET) trytes)"

definition isTrytes :: "string \<Rightarrow> bool" where
  "isTrytes trytes = (trytes \<noteq> [] \<and> list_all (\<lambda>c. c \<in> set ALPHABET) trytes)"

text \<open>\<^verbatim>\<open>toTrits\<close>: a character outside the alphabet has index -1, the table has no such
  row and reading its element 0 throws a TypeError, which is \<open>None\<close>.\<close>

fun toTrits :: "string \<Rightarrow> trits option" where
  "toTrits [] = Some []"
| "toTrits (c # cs) =
     (case indexOf ALPHABET c of
        None \<Rightarrow> None
      | Some idx \<Rightarrow> map_option (\<lambda>rest. TRYTES_TRITS ! idx @ rest) (toTrits cs))"

text \<open>\<^verbatim>\<open>fromTrits\<close>: three trits at a time; a group that is no row of the table (one that
  holds a value that is no trit, or the last group when it is short) adds no character.\<close>

function fromTrits :: "trits \<Rightarrow> string" where
  "fromTrits ts =
     (if ts = [] then []
      else (case indexOf TRYTES_TRITS (take 3 ts) of
              None \<Rightarrow> []
            | Some j \<Rightarrow> [ALPHABET ! j])
           @ fromTrits (drop 3 ts))"
  by pat_completeness auto
termination
  by (relation "measure length") auto

declare fromTrits.simps [simp del]

section \<open>The Merkle tree\<close>

text \<open>A node: the two children (absent in a leaf, the right one absent in a node made of
  the last node of an odd level), the number of leaves, the address, and the private key
  (of a leaf only).\<close>

datatype merkleNode =
  MerkleNode (left: "merkleNode option") (right: "merkleNode option") (nodeSize: nat)
             (addressTrits: trits) (privateKeyTrits: "trits option")

text \<open>The constructor of \<^verbatim>\<open>MerkleNode\<close>.\<close>

definition newMerkleNode ::
    "merkleNode option \<Rightarrow> merkleNode option \<Rightarrow> trits \<Rightarrow> trits option \<Rightarrow> merkleNode" where
  "newMerkleNode l r a k =
     MerkleNode l r ((case l of None \<Rightarrow> 0 | Some n \<Rightarrow> nodeSize n)
                     + (case r of None \<Rightarrow> 0 | Some n \<Rightarrow> nodeSize n)) a k"

text \<open>\<^verbatim>\<open>generateAddress\<close> returns the address and the private key.\<close>

definition generateAddress :: "trits \<Rightarrow> int \<Rightarrow> nat \<Rightarrow> trits \<times> trits" where
  "generateAddress seedTrits index security =
     (let ss = subseed seedTrits index;
          dg = digestFromSubseed ss security
      in (address dg, privateKeyFromSubseed ss security))"

text \<open>The loop of \<^verbatim>\<open>buildTree\<close>: the nodes of a level, two by two.\<close>

fun buildLevel :: "merkleNode list \<Rightarrow> merkleNode list" where
  "buildLevel (l # r # rest) =
     (let sponge = absorb (newCurl 27) (addressTrits l) 0 (length (addressTrits l));
          sponge = absorb sponge (addressTrits r) 0 (length (addressTrits r));
          a = fst (squeeze sponge (replicate HASH_LENGTH 0) 0 HASH_LENGTH)
      in newMerkleNode (Some l) (Some r) a None # buildLevel rest)"
| "buildLevel [l] = [newMerkleNode (Some l) None (addressTrits l) None]"
| "buildLevel [] = []"

text \<open>\<^verbatim>\<open>buildTree\<close> calls itself until a level has one node; on no leaf at all it never
  returns.\<close>

partial_function (option) buildTree :: "merkleNode list \<Rightarrow> merkleNode option" where
  "buildTree leaves =
     (let subnodes = buildLevel leaves
      in if length subnodes = 1 then Some (hd subnodes) else buildTree subnodes)"

declare buildTree.simps [code]

text \<open>The constructor of \<^verbatim>\<open>MerkleTree\<close>; the tree is its root node.\<close>

definition newMerkleTree :: "string \<Rightarrow> int \<Rightarrow> int \<Rightarrow> nat \<Rightarrow> merkleNode option" where
  "newMerkleTree seed index count security =
     Option.bind (toTrits seed) (\<lambda>seedTrits.
       buildTree (map (\<lambda>i. let (a, k) = generateAddress seedTrits (index + int i) security
                           in MerkleNode None None 1 a (Some k))
                      [0..<nat count]))"

text \<open>The static \<^verbatim>\<open>MerkleTree.root\<close>: one pass of its loop on the sponge, the bit
  \<open>i\<close> and the rate, then the whole.\<close>

definition rootStep :: "trits \<Rightarrow> int \<Rightarrow> nat \<Rightarrow> curl \<times> int \<times> trits \<Rightarrow> curl \<times> int \<times> trits" where
  "rootStep siblings index c = (\<lambda>(sponge, i, rate0).
     let chunk = slice siblings (c * HASH_LENGTH) ((c + 1) * HASH_LENGTH);
         sponge0 = reset sponge;
         sponge' = (if jsAnd i index = 0
                    then absorb (absorb sponge0 rate0 0 (length rate0)) chunk 0 (length chunk)
                    else absorb (absorb sponge0 chunk 0 (length chunk)) rate0 0 (length rate0))
     in (sponge', jsShl i 1, rate sponge' HASH_LENGTH))"

definition root :: "trits \<Rightarrow> trits \<Rightarrow> int \<Rightarrow> trits" where
  "root rate0 siblings index =
     (let numChunks = (length siblings + HASH_LENGTH - 1) div HASH_LENGTH;
          (sponge, i, r) = fold (rootStep siblings index) [0..<numChunks] (newCurl 27, 1, rate0)
      in rate sponge HASH_LENGTH)"

text \<open>The loop of \<^verbatim>\<open>getSubtree\<close>, from a node down: it returns the private key found
  (none when the walk leaves the tree) and the nodes pushed, in the order of the pushes.\<close>

fun descend :: "merkleNode \<Rightarrow> int \<Rightarrow> merkleNode list \<Rightarrow> trits option \<times> merkleNode list" where
  "descend (MerkleNode None r s a k) index leaves = (k, leaves)"
| "descend (MerkleNode (Some l) None s a k) index leaves =
     (if index < int (nodeSize l) then descend l index (leaves @ [l])
      else (None, leaves @ [l]))"
| "descend (MerkleNode (Some l) (Some r) s a k) index leaves =
     (if index < int (nodeSize l) then descend l index (leaves @ [r])
      else descend r (index - int (nodeSize l)) (leaves @ [l]))"

text \<open>\<^verbatim>\<open>getSubtree\<close> returns the key (empty when there is none) and the leaves.\<close>

definition getSubtree :: "merkleNode \<Rightarrow> int \<Rightarrow> trits \<times> merkleNode list" where
  "getSubtree rootNode index =
     (if nodeSize rootNode = 1
      then ((case left rootNode of
               None \<Rightarrow> []
             | Some l \<Rightarrow> (case privateKeyTrits l of None \<Rightarrow> [] | Some k \<Rightarrow> k)), [])
      else if index < int (nodeSize rootNode)
      then (let (privateKey, leaves) = descend rootNode index []
            in ((case privateKey of None \<Rightarrow> [] | Some k \<Rightarrow> k), rev leaves))
      else ([], []))"

section \<open>The channel\<close>

text \<open>\<^verbatim>\<open>concatenate\<close> and \<^verbatim>\<open>maskHash\<close>.\<close>

definition concatenate :: "trits list \<Rightarrow> trits" where
  "concatenate arrays = fold (\<lambda>arr result. result @ arr) arrays []"

definition maskHash :: "trits \<Rightarrow> trits" where
  "maskHash keyTrits =
     (let sponge = absorb (newCurl 81) keyTrits 0 (length keyTrits)
      in fst (squeeze sponge (replicate HASH_LENGTH 0) 0 HASH_LENGTH))"

text \<open>The state of a channel and a message.  The numbers of the state are integers; an
  absent \<^verbatim>\<open>sideKey\<close> or \<^verbatim>\<open>nextRoot\<close> is \<open>None\<close>.\<close>

record channelState =
  seed :: string
  mode :: string
  sideKey :: "string option"
  security :: nat
  start :: int
  count :: int
  nextCount :: int
  index :: int
  nextRoot :: "string option"

record mamMessage =
  msgPayload :: string
  msgRoot :: string
  msgAddress :: string

text \<open>\<^verbatim>\<open>createChannel\<close>; every \<^verbatim>\<open>throw\<close> is \<open>None\<close>.\<close>

definition createChannel :: "string \<Rightarrow> nat \<Rightarrow> string \<Rightarrow> string option \<Rightarrow> channelState option" where
  "createChannel sd sec md key =
     (let given = (key \<noteq> None \<and> key \<noteq> Some [])
      in if \<not> isHash sd then None
         else if sec < 1 \<or> sec > 3 then None
         else if md \<noteq> ''public'' \<and> md \<noteq> ''private'' \<and> md \<noteq> ''restricted'' then None
         else if md = ''restricted''
                   \<and> (\<not> given \<or> \<not> isTrytes (the key) \<or> length (the key) > 81) then None
         else if md \<noteq> ''restricted'' \<and> given then None
         else Some \<lparr>seed = sd, mode = md,
                    sideKey = (if md = ''restricted''
                               then Some (the key @ replicate (81 - length (the key)) CHR ''9'')
                               else None),
                    security = sec, start = 0, count = 1, nextCount = 1, index = 0,
                    nextRoot = None\<rparr>)"

text \<open>The update of the state at the end of \<^verbatim>\<open>createMessage\<close>.\<close>

definition advance :: "channelState \<Rightarrow> trits \<Rightarrow> channelState" where
  "advance channelState nextRootTrits =
     (if index channelState = count channelState - 1
      then channelState\<lparr>start := nextCount channelState + start channelState, index := 0\<rparr>
      else channelState\<lparr>index := index channelState + 1\<rparr>)
     \<lparr>nextRoot := Some (fromTrits nextRootTrits)\<rparr>"

text \<open>\<^verbatim>\<open>createMessage\<close> returns the message and the state updated; \<open>None\<close> is a
  \<^verbatim>\<open>throw\<close> or a call that does not return.  The count of the siblings is a quotient of
  lengths: it is an integer as every address has 243 trits, and the model stops otherwise.
  The conversions between trytes and trits (\<^verbatim>\<open>isTrytes\<close>, \<^verbatim>\<open>trits\<close>, \<^verbatim>\<open>trytes\<close>), which
  the TypeScript source imports from a library, are those of \<^verbatim>\<open>TrytesHelper\<close>, as in the
  compiled module; an empty side key counts as absent (\<^verbatim>\<open>sideKey || "9".repeat(81)\<close>).\<close>

definition createMessage :: "channelState \<Rightarrow> string \<Rightarrow> (mamMessage \<times> channelState) option" where
  "createMessage channelState message =
     (if \<not> isTrytes message then None
      else
      Option.bind (newMerkleTree (seed channelState) (start channelState) (count channelState)
                     (security channelState)) (\<lambda>tree.
      Option.bind (newMerkleTree (seed channelState) (start channelState + count channelState)
                     (nextCount channelState) (security channelState)) (\<lambda>nextRootTree.
      let nextRootTrits = addressTrits nextRootTree in
      Option.bind (toTrits message) (\<lambda>messageTrits.
      Option.bind (pascalEncode (index channelState)) (\<lambda>indexTrits.
      Option.bind (pascalEncode (int (length messageTrits))) (\<lambda>messageLengthTrits.
      let subtree = getSubtree tree (index channelState);
          sponge = reset (newCurl 27)
      in
      Option.bind (toTrits (case sideKey channelState of
                              None \<Rightarrow> replicate 81 CHR ''9''
                            | Some k \<Rightarrow> if k = [] then replicate 81 CHR ''9'' else k))
        (\<lambda>sideKeyTrits.
      let sponge = absorb sponge sideKeyTrits 0 (length sideKeyTrits);
          sponge = absorb sponge (addressTrits tree) 0 (length (addressTrits tree));
          payload = concatenate [indexTrits, messageLengthTrits];
          sponge = absorb sponge payload 0 (length payload);
          (maskedNextRoot, sponge) = mask (concatenate [nextRootTrits, messageTrits]) sponge;
          payload = concatenate [payload, maskedNextRoot]
      in
      Option.bind (search (rate sponge STATE_LENGTH) (security channelState) (HASH_LENGTH div 3) 0)
        (\<lambda>nonce.
      let (nonceTrits, sponge) = mask nonce sponge;
          payload = concatenate [payload, nonceTrits]
      in
      Option.bind (signature (rate sponge HASH_LENGTH) (fst subtree)) (\<lambda>sig.
      let subtreeTrits = concatenate (map addressTrits (snd subtree)) in
      if length subtreeTrits mod HASH_LENGTH \<noteq> 0 then None
      else
      Option.bind (pascalEncode (int (length subtreeTrits div HASH_LENGTH))) (\<lambda>siblingsCountTrits.
      let (encryptedSignature, sponge) =
             mask (concatenate [sig, siblingsCountTrits, subtreeTrits]) sponge;
          payload = concatenate [payload, encryptedSignature];
          nextThird = length payload mod 3;
          payload = (if nextThird \<noteq> 0 then concatenate [payload, replicate (3 - nextThird) 0]
                     else payload);
          sponge = reset sponge;
          messageAddress = (if mode channelState \<noteq> ''public'' then maskHash (addressTrits tree)
                            else addressTrits tree)
      in Some (\<lparr>msgPayload = fromTrits payload,
                 msgRoot = fromTrits (addressTrits tree),
                 msgAddress = fromTrits messageAddress\<rparr>,
               advance channelState nextRootTrits)))))))))))"

section \<open>Auxiliary notions of the proofs\<close>

text \<open>The invariant of the scan of \<open>transform\<close>, and a sponge whose state is 729 trits.\<close>

definition scanOK :: "trits \<times> nat \<Rightarrow> bool" where
  "scanOK = (\<lambda>(st, index). length st = STATE_LENGTH \<and> isTrits st \<and> index < STATE_LENGTH)"

definition curlOK :: "curl \<Rightarrow> bool" where
  "curlOK c = (length (state c) = STATE_LENGTH \<and> isTrits (state c))"

text \<open>Absorbing one chunk of at most 243 trits.\<close>

definition absorbChunk :: "curl \<Rightarrow> trits \<Rightarrow> curl" where
  "absorbChunk c chunk = transform (c\<lparr>state := chunk @ drop (length chunk) (state c)\<rparr>)"

text \<open>The effect of \<open>mask\<close> and of \<open>unmask\<close> on the payload, chunk by chunk.\<close>

function maskChunks :: "trits \<Rightarrow> curl \<Rightarrow> trits" where
  "maskChunks p S =
     (if p = [] then []
      else let chunk = take HASH_LENGTH p
           in map2 (\<lambda>x k. toInt8 (tritSum x k)) chunk (rate S HASH_LENGTH)
              @ maskChunks (drop HASH_LENGTH p) (absorbChunk S chunk))"
  by pat_completeness auto
termination
  by (relation "measure (\<lambda>(p, S). length p)") (auto simp: HASH_LENGTH_def)

function unmaskChunks :: "trits \<Rightarrow> curl \<Rightarrow> trits" where
  "unmaskChunks q S =
     (if q = [] then []
      else let chunk = map2 (\<lambda>x k. toInt8 (tritSum x (- k))) (take HASH_LENGTH q) (rate S HASH_LENGTH)
           in chunk @ unmaskChunks (drop HASH_LENGTH q) (absorbChunk S chunk))"
  by pat_completeness auto
termination
  by (relation "measure (\<lambda>(p, S). length p)") (auto simp: HASH_LENGTH_def)

declare maskChunks.simps [simp del] unmaskChunks.simps [simp del]

text \<open>The hash of one block of 243 trits by a fresh sponge of 27 rounds.\<close>

definition hashBlock :: "trits \<Rightarrow> trits" where
  "hashBlock b = take HASH_LENGTH (state (absorbChunk (newCurl 27) b))"

text \<open>The blocks a sponge gives when it is squeezed again and again.\<close>

definition squeezed :: "curl \<Rightarrow> nat \<Rightarrow> trits" where
  "squeezed c i = take HASH_LENGTH (state ((transform ^^ i) c))"

text \<open>The sponge that has absorbed the subseed, the blocks squeezed from it, and the
  blocks the signer commits to.\<close>

definition subseedSponge :: "trits \<Rightarrow> curl" where
  "subseedSponge ss = absorb (newCurl 27) ss 0 (length ss)"

definition keyBlock :: "trits \<Rightarrow> nat \<Rightarrow> trits" where
  "keyBlock ss i = hashBlock (squeezed (subseedSponge ss) i)"

definition digestBlock :: "trits \<Rightarrow> nat \<Rightarrow> trits" where
  "digestBlock ss i = (hashBlock ^^ 27) (squeezed (subseedSponge ss) i)"

text \<open>The tryte values of a hash that the chains are driven by.\<close>

definition tryteValue :: "trits \<Rightarrow> nat \<Rightarrow> int" where
  "tryteValue h i = h ! (i * 3) + h ! (i * 3 + 1) * 3 + h ! (i * 3 + 2) * 9"

text \<open>A trit and the two bits that stand for it in one lane.\<close>

definition enc :: "int \<Rightarrow> bool \<Rightarrow> bool \<Rightarrow> bool" where
  "enc t a b = ((t = 0 \<and> a \<and> b) \<or> (t = 1 \<and> \<not> a \<and> b) \<or> (t = -1 \<and> a \<and> \<not> b))"

text \<open>Lane \<open>l\<close> of a bit-sliced state holds the trits \<open>st\<close>.\<close>

definition laneRel :: "nat \<Rightarrow> searchStates \<Rightarrow> trits \<Rightarrow> bool" where
  "laneRel l s st =
     (length (low s) = STATE_LENGTH \<and> length (high s) = STATE_LENGTH \<and> length st = STATE_LENGTH
      \<and> list_all (\<lambda>k. enc (st ! k) (bit (low s ! k) l) (bit (high s ! k) l)) [0..<STATE_LENGTH])"

text \<open>The two scans side by side: the same scanning index, and the lane holds the
  state.\<close>

definition scanRel :: "nat \<Rightarrow> searchStates \<times> nat \<Rightarrow> trits \<times> nat \<Rightarrow> bool" where
  "scanRel l = (\<lambda>(s, i) (st, j). i = j \<and> i < STATE_LENGTH \<and> laneRel l s st)"

text \<open>One position in the sum of \<open>check\<close>, read from the bits of the lane.\<close>

definition laneStep :: "int list \<Rightarrow> int list \<Rightarrow> nat \<Rightarrow> nat \<Rightarrow> int \<Rightarrow> int" where
  "laneStep lo hi i k s =
     (if \<not> bit (lo ! k) i then s - 1 else if \<not> bit (hi ! k) i then s + 1 else s)"

text \<open>Every lane of a search state holds trits, and from position \<open>n\<close> on they are the
  trits of \<open>st0\<close>.\<close>

definition lanesHold :: "trits \<Rightarrow> searchStates \<Rightarrow> nat \<Rightarrow> bool" where
  "lanesHold st0 s n = (\<forall>l<64. \<exists>lane. laneRel l s lane \<and> drop n lane = drop n st0)"

definition dec :: "bool \<Rightarrow> bool \<Rightarrow> int" where
  "dec a b = (if a \<and> \<not> b then -1 else if \<not> a \<and> b then 1 else 0)"

text \<open>The Merkle tree.  The address of a node with two children; a leaf as the constructor of
  \<^verbatim>\<open>MerkleTree\<close> makes it; \<open>paired n i\<close>: every node on the path from \<open>n\<close> to its leaf
  \<open>i\<close> has a right child; the leaves below a node; a node of height \<open>h\<close> as
  \<^verbatim>\<open>buildTree\<close> makes it; and the walk from a leaf address up, along the bits of the index.\<close>

definition hashPair :: "trits \<Rightarrow> trits \<Rightarrow> trits" where
  "hashPair a b = rate (absorb (absorb (newCurl 27) a 0 (length a)) b 0 (length b)) HASH_LENGTH"

definition isLeaf :: "merkleNode \<Rightarrow> bool" where
  "isLeaf n = (left n = None \<and> right n = None \<and> nodeSize n = 1
               \<and> length (addressTrits n) = HASH_LENGTH)"

fun paired :: "merkleNode \<Rightarrow> int \<Rightarrow> bool" where
  "paired (MerkleNode None r s a k) i = True"
| "paired (MerkleNode (Some l) None s a k) i = False"
| "paired (MerkleNode (Some l) (Some r) s a k) i =
     (if i < int (nodeSize l) then paired l i else paired r (i - int (nodeSize l)))"

fun leavesOf :: "merkleNode \<Rightarrow> merkleNode list" where
  "leavesOf (MerkleNode None r s a k) = [MerkleNode None r s a k]"
| "leavesOf (MerkleNode (Some l) None s a k) = leavesOf l"
| "leavesOf (MerkleNode (Some l) (Some r) s a k) = leavesOf l @ leavesOf r"

fun wfNode :: "nat \<Rightarrow> merkleNode \<Rightarrow> bool" where
  "wfNode 0 n = isLeaf n"
| "wfNode (Suc h) (MerkleNode None r s a k) = False"
| "wfNode (Suc h) (MerkleNode (Some l) None s a k) =
     (wfNode h l \<and> s = nodeSize l \<and> a = addressTrits l)"
| "wfNode (Suc h) (MerkleNode (Some l) (Some r) s a k) =
     (wfNode h l \<and> wfNode h r \<and> nodeSize l = 2 ^ h \<and> s = nodeSize l + nodeSize r
      \<and> a = hashPair (addressTrits l) (addressTrits r))"

fun climb :: "trits \<Rightarrow> trits list \<Rightarrow> int \<Rightarrow> trits" where
  "climb a [] i = a"
| "climb a (s # ss) i = climb (if even i then hashPair a s else hashPair s a) ss (i div 2)"

text \<open>Pascal encoding.  The digits that \<open>writeTrits\<close> writes for a value that is not
  negative, lowest first; the bound of the values of \<open>m\<close> trits; a buffer cut into trytes;
  the trytes as \<open>encodeStep\<close> leaves them and the bits it sets, lowest first; and the value
  of a list of bits and of a list of tryte values.\<close>

function bt :: "int \<Rightarrow> trits" where
  "bt n = (if n \<le> 0 then []
           else if n mod 3 > 1 then (-1) # bt (n div 3 + 1)
           else (n mod 3) # bt (n div 3))"
  by pat_completeness auto
termination
  by (relation "measure nat") (auto, presburger)

declare bt.simps [simp del]

fun tritBound :: "nat \<Rightarrow> nat" where
  "tritBound 0 = 0"
| "tritBound (Suc m) = 3 * tritBound m + 1"

function chunks3 :: "trits \<Rightarrow> trits list" where
  "chunks3 xs = (if xs = [] then [] else take 3 xs # chunks3 (drop 3 xs))"
  by pat_completeness auto
termination
  by (relation "measure length") auto

declare chunks3.simps [simp del]

definition flipTryte :: "trits \<Rightarrow> trits" where
  "flipTryte t = (if tritsValue t \<ge> 0 then map uminus t else t)"

fun bitsValue :: "bool list \<Rightarrow> int" where
  "bitsValue [] = 0"
| "bitsValue (b # bs) = (if b then 1 else 0) + 2 * bitsValue bs"

fun trytesValue :: "int list \<Rightarrow> int" where
  "trytesValue [] = 0"
| "trytesValue (x # xs) = x + 27 * trytesValue xs"


chapter \<open>Properties\<close>

section \<open>The security of a hash\<close>

lemma fold_add_sum_list: "fold (\<lambda>x s. s + x) xs (a::int) = a + sum_list xs"
  by (induction xs arbitrary: a) auto

lemma sumLoop_sum_list: "sumLoop xs = sum_list xs"
  by (simp add: sumLoop_def fold_add_sum_list)

text \<open>
  C9.  For a hash of 243 trits, \<open>checksumSecurity\<close> is 1 when the first 81 trits sum to
  zero, otherwise 2 when the first 162 do, otherwise 3 when all 243 do, otherwise 0; so it
  is the least level in 1..3 whose cumulative sum of thirds is zero, and 0 when there is
  none.
\<close>

theorem checksumSecurity_least:
  assumes "length hash = 243"
  shows "checksumSecurity hash =
           (if sum_list (take 81 hash) = 0 then 1
            else if sum_list (take 162 hash) = 0 then 2
            else if sum_list (take 243 hash) = 0 then 3 else 0)
       \<and> checksumSecurity hash =
           (if \<exists>L\<in>{1, 2, 3}. thirdSum hash L = 0
            then (LEAST L. L \<in> {1, 2, 3} \<and> thirdSum hash L = 0) else 0)"
proof -
  have first: "checksumSecurity hash =
           (if sum_list (take 81 hash) = 0 then 1
            else if sum_list (take 162 hash) = 0 then 2
            else if sum_list (take 243 hash) = 0 then 3 else 0)"
    using assms
    by (simp add: checksumSecurity_def sumLoop_sum_list slice_def HASH_LENGTH_def Let_def)
  have t1: "thirdSum hash 1 = sum_list (take 81 hash)"
    and t2: "thirdSum hash 2 = sum_list (take 162 hash)"
    and t3: "thirdSum hash 3 = sum_list (take 243 hash)"
    by (simp_all add: thirdSum_def)
  have second: "checksumSecurity hash =
           (if \<exists>L\<in>{1, 2, 3}. thirdSum hash L = 0
            then (LEAST L. L \<in> {1, 2, 3} \<and> thirdSum hash L = 0) else 0)"
  proof (cases "thirdSum hash 1 = 0")
    case True
    have "(LEAST L. L \<in> {1, 2, 3} \<and> thirdSum hash L = 0) = 1"
      by (rule Least_equality) (use True in auto)
    with True show ?thesis by (simp add: first t1 [symmetric])
  next
    case n1: False
    show ?thesis
    proof (cases "thirdSum hash 2 = 0")
      case True
      have "(LEAST L. L \<in> {1, 2, 3} \<and> thirdSum hash L = 0) = 2"
        by (rule Least_equality) (use True n1 in auto)
      with True n1 show ?thesis by (simp add: first t1 [symmetric] t2 [symmetric])
    next
      case n2: False
      show ?thesis
      proof (cases "thirdSum hash 3 = 0")
        case True
        have "(LEAST L. L \<in> {1, 2, 3} \<and> thirdSum hash L = 0) = 3"
          by (rule Least_equality) (use True n1 n2 in auto)
        with True n1 n2 show ?thesis
          by (simp add: first t1 [symmetric] t2 [symmetric] t3 [symmetric])
      next
        case False
        with n1 n2 show ?thesis
          by (simp add: first t1 [symmetric] t2 [symmetric] t3 [symmetric])
      qed
    qed
  qed
  from first second show ?thesis by simp
qed

theorem checksumSecurity_least_witness:
  "length ([1] @ replicate 80 0 @ [-1] @ replicate 161 (0::int)) = 243
   \<and> checksumSecurity ([1] @ replicate 80 0 @ [-1] @ replicate 161 0) = 2"
proof -
  let ?h = "[1] @ replicate 80 0 @ [-1] @ replicate 161 (0::int)"
  have len: "length ?h = 243" by simp
  have s1: "sum_list (take 81 ?h) = 1" by (simp add: sum_list_replicate)
  have s2: "sum_list (take 162 ?h) = 0" by (simp add: sum_list_replicate)
  from checksumSecurity_least [OF len] have "checksumSecurity ?h =
           (if sum_list (take 81 ?h) = 0 then 1
            else if sum_list (take 162 ?h) = 0 then 2
            else if sum_list (take 243 ?h) = 0 then 3 else 0)"
    by (rule conjunct1)
  then have "checksumSecurity ?h = 2" unfolding s1 s2 by simp
  with len show ?thesis by simp
qed

section \<open>The sponge keeps trits; masking\<close>

lemma fold_invariant:
  assumes "I s" and "\<And>x s. x \<in> set xs \<Longrightarrow> I s \<Longrightarrow> I (f x s)"
  shows "I (fold f xs s)"
  using assms by (induction xs arbitrary: s) auto

lemma funpow_invariant:
  assumes "I s" and "\<And>s. I s \<Longrightarrow> I (f s)"
  shows "I ((f ^^ n) s)"
  using assms by (induction n) auto

lemma isTrits_nth: "isTrits ts \<Longrightarrow> i < length ts \<Longrightarrow> isTrit (ts ! i)"
  by (simp add: isTrits_def list_all_length)

lemma isTrits_update: "isTrits ts \<Longrightarrow> isTrit v \<Longrightarrow> isTrits (ts[i := v])"
  using set_update_subset_insert [of ts i v] by (auto simp: isTrits_def list_all_iff)

lemma isTrits_append [simp]: "isTrits (xs @ ys) = (isTrits xs \<and> isTrits ys)"
  by (simp add: isTrits_def)

lemma isTrits_take: "isTrits ts \<Longrightarrow> isTrits (take n ts)"
  by (auto simp: isTrits_def list_all_length)

lemma isTrits_drop: "isTrits ts \<Longrightarrow> isTrits (drop n ts)"
  by (auto simp: isTrits_def list_all_length)

lemma isTrits_replicate_0 [simp]: "isTrits (replicate n 0)"
  by (simp add: isTrits_def isTrit_def list_all_length)

lemma isTrits_slice: "isTrits ts \<Longrightarrow> isTrits (slice ts a b)"
  by (simp add: slice_def isTrits_take isTrits_drop)

lemma truthTable_trit: "isTrit a \<Longrightarrow> isTrit b \<Longrightarrow> isTrit (truthTable (a + 4 * b + 5))"
  by (auto simp: isTrit_def truthTable_def TRUTH_TABLE_def)

lemma transformStep_scanOK:
  assumes "length stateCopy = STATE_LENGTH" "isTrits stateCopy" "scanOK s"
  shows "scanOK (transformStep stateCopy i s)"
proof -
  obtain st idx where s: "s = (st, idx)" by (cases s)
  let ?idx' = "if idx < 365 then idx + 364 else idx - 365"
  from assms(3) s have idx: "idx < 729" and st: "length st = 729" "isTrits st"
    by (simp_all add: scanOK_def STATE_LENGTH_def HASH_LENGTH_def)
  then have idx': "?idx' < 729" by auto
  from assms(1) have len: "length stateCopy = 729" by (simp add: STATE_LENGTH_def HASH_LENGTH_def)
  have "isTrit (truthTable (stateCopy ! idx + 4 * (stateCopy ! ?idx') + 5))"
    using idx idx' len assms(2) by (intro truthTable_trit isTrits_nth) simp_all
  then show ?thesis
    using st idx' unfolding s transformStep_def
    by (simp add: scanOK_def Let_def isTrits_update STATE_LENGTH_def HASH_LENGTH_def)
qed

lemma transformRound_scanOK: "scanOK s \<Longrightarrow> scanOK (transformRound s)"
proof -
  assume ok: "scanOK s"
  obtain st idx where s: "s = (st, idx)" by (cases s)
  from ok s have "length st = STATE_LENGTH" "isTrits st" by (simp_all add: scanOK_def)
  then have "scanOK (fold (transformStep st) [0..<STATE_LENGTH] (st, idx))"
    using ok s by (intro fold_invariant [where I = scanOK] transformStep_scanOK) simp_all
  then show ?thesis by (simp add: transformRound_def s)
qed

lemma transform_curlOK: "curlOK c \<Longrightarrow> curlOK (transform c)"
proof -
  assume "curlOK c"
  then have "scanOK (state c, 0)"
    by (simp add: curlOK_def scanOK_def STATE_LENGTH_def HASH_LENGTH_def)
  then have "scanOK ((transformRound ^^ rounds c) (state c, 0))"
    by (rule funpow_invariant) (rule transformRound_scanOK)
  then show ?thesis
    by (simp add: transform_def curlOK_def scanOK_def split_beta)
qed

lemma transform_rounds [simp]: "rounds (transform c) = rounds c"
  by (simp add: transform_def)

lemma absorb_short:
  assumes "len \<le> HASH_LENGTH"
  shows "absorb c ts offset len =
           transform (c\<lparr>state := setAt (state c) (slice ts offset (offset + len)) 0\<rparr>)"
  using assms by (subst absorb.simps) (auto simp: Let_def)

lemma absorb_whole_chunk:
  "length chunk \<le> HASH_LENGTH \<Longrightarrow> absorb c chunk 0 (length chunk) = absorbChunk c chunk"
  by (simp add: absorb_short absorbChunk_def setAt_def slice_def)

lemma absorbChunk_curlOK:
  assumes "curlOK c" "isTrits chunk" "length chunk \<le> HASH_LENGTH"
  shows "curlOK (absorbChunk c chunk)"
  unfolding absorbChunk_def
  using assms
  by (intro transform_curlOK) (simp add: curlOK_def isTrits_drop HASH_LENGTH_def STATE_LENGTH_def)


lemma length_transformStep: "length (fst (transformStep cp i s)) = length (fst s)"
  by (cases s) (simp add: transformStep_def Let_def)

lemma length_transformRound: "length (fst (transformRound s)) = length (fst s)"
proof -
  obtain st idx where s: "s = (st, idx)" by (cases s)
  have "length (fst (fold (transformStep st) xs t)) = length (fst t)" for xs t
    by (induction xs arbitrary: t) (simp_all add: length_transformStep)
  then show ?thesis by (simp add: transformRound_def s)
qed

lemma length_transform [simp]: "length (state (transform c)) = length (state c)"
proof -
  have "length (fst ((transformRound ^^ n) s)) = length (fst s)" for n s
    by (induction n) (simp_all add: length_transformRound)
  then show ?thesis by (simp add: transform_def)
qed

lemma length_absorbChunk:
  "length chunk \<le> length (state c) \<Longrightarrow> length (state (absorbChunk c chunk)) = length (state c)"
  by (simp add: absorbChunk_def)

lemma length_rate: "len \<le> length (state c) \<Longrightarrow> length (rate c len) = len"
  by (simp add: rate_def slice_def)

lemma isTrits_rate: "curlOK c \<Longrightarrow> isTrits (rate c len)"
  by (simp add: rate_def curlOK_def isTrits_slice)


lemma tritSum_inverse:
  "isTrit x \<Longrightarrow> isTrit k \<Longrightarrow> toInt8 (tritSum (toInt8 (tritSum x k)) (- k)) = x"
  by (auto simp: isTrit_def tritSum_def toInt8_def)

lemma unmask_mask_chunk:
  assumes "isTrits chunk" "isTrits key" "length chunk \<le> length key"
  shows "map2 (\<lambda>x k. toInt8 (tritSum x (- k)))
           (map2 (\<lambda>x k. toInt8 (tritSum x k)) chunk key) key = chunk"
proof (rule nth_equalityI)
  show "length (map2 (\<lambda>x k. toInt8 (tritSum x (- k)))
           (map2 (\<lambda>x k. toInt8 (tritSum x k)) chunk key) key) = length chunk"
    using assms(3) by simp
next
  fix i assume "i < length (map2 (\<lambda>x k. toInt8 (tritSum x (- k)))
           (map2 (\<lambda>x k. toInt8 (tritSum x k)) chunk key) key)"
  then have i: "i < length chunk" "i < length key" using assms(3) by simp_all
  then show "map2 (\<lambda>x k. toInt8 (tritSum x (- k)))
           (map2 (\<lambda>x k. toInt8 (tritSum x k)) chunk key) key ! i = chunk ! i"
    using assms(1,2) by (simp add: tritSum_inverse isTrits_nth)
qed

lemma unmaskChunks_maskChunks:
  "curlOK S \<Longrightarrow> isTrits p \<Longrightarrow> unmaskChunks (maskChunks p S) S = p"
proof (induction p S rule: maskChunks.induct)
  case (1 p S)
  show ?case
  proof (cases "p = []")
    case True
    then show ?thesis by (simp add: maskChunks.simps unmaskChunks.simps)
  next
    case False
    let ?chunk = "take HASH_LENGTH p"
    let ?key = "rate S HASH_LENGTH"
    let ?m0 = "map2 (\<lambda>x k. toInt8 (tritSum x k)) ?chunk ?key"
    let ?S' = "absorbChunk S ?chunk"
    let ?rest = "maskChunks (drop HASH_LENGTH p) ?S'"
    have keylen: "length ?key = HASH_LENGTH"
      using "1.prems"(1) by (simp add: length_rate curlOK_def STATE_LENGTH_def)
    have chunk: "isTrits ?chunk" "length ?chunk \<le> HASH_LENGTH"
      using "1.prems"(2) by (simp_all add: isTrits_take)
    have key: "isTrits ?key" using "1.prems"(1) by (rule isTrits_rate)
    have S': "curlOK ?S'" using "1.prems"(1) chunk by (rule absorbChunk_curlOK)
    have mk: "maskChunks p S = ?m0 @ ?rest"
      using False by (subst maskChunks.simps) (simp add: Let_def)
    have m0len: "length ?m0 = length ?chunk" using keylen by simp
    have td: "take HASH_LENGTH (?m0 @ ?rest) = ?m0 \<and> drop HASH_LENGTH (?m0 @ ?rest) = ?rest"
    proof (cases "HASH_LENGTH \<le> length p")
      case True
      then have "length ?m0 = HASH_LENGTH" using m0len by simp
      then show ?thesis by simp
    next
      case short: False
      then have "drop HASH_LENGTH p = []" by simp
      then have "?rest = []" by (simp add: maskChunks.simps)
      moreover have "length ?m0 \<le> HASH_LENGTH" using m0len by simp
      ultimately show ?thesis by simp
    qed
    have "0 < length ?m0" unfolding m0len using False by (simp add: HASH_LENGTH_def)
    then have ne: "?m0 @ ?rest \<noteq> []"
      by (metis append_is_Nil_conv length_greater_0_conv)
    have undo: "map2 (\<lambda>x k. toInt8 (tritSum x (- k))) ?m0 ?key = ?chunk"
      using chunk key keylen by (intro unmask_mask_chunk) simp_all
    have IH: "unmaskChunks ?rest ?S' = drop HASH_LENGTH p"
      using False S' "1.prems"(2) by (intro "1.IH") (simp_all add: isTrits_drop)
    have "unmaskChunks (?m0 @ ?rest) S = ?chunk @ unmaskChunks ?rest ?S'"
      by (subst unmaskChunks.simps) (simp only: ne if_False Let_def td undo)
    then show ?thesis by (simp add: mk IH)
  qed
qed


lemma HASH_LENGTH_pos [simp]: "0 < HASH_LENGTH"
  by (simp add: HASH_LENGTH_def)

lemma HASH_LENGTH_nonzero [simp]: "HASH_LENGTH \<noteq> 0" "0 \<noteq> HASH_LENGTH"
  by (simp_all add: HASH_LENGTH_def)

lemma list_update_append_hd:
  "n = length xs \<Longrightarrow> ys \<noteq> [] \<Longrightarrow> (xs @ ys)[n := v] = xs @ v # tl ys"
  by (cases ys) (simp_all add: list_update_append)

lemma maskInner:
  assumes "m \<le> length chunk" "m \<le> length k" "m \<le> length st" "b + m \<le> length p"
  shows "fold (\<lambda>i (p, k). (p[b + i := F (chunk ! i) (k ! i)], k[i := st ! i])) [0..<m] (p, k)
         = (take b p @ map2 F (take m chunk) (take m k) @ drop (b + m) p, take m st @ drop m k)"
  using assms
proof (induction m)
  case 0
  then show ?case by simp
next
  case (Suc m)
  let ?Z = "map2 F (take m chunk) (take m k)"
  have IH: "fold (\<lambda>i (p, k). (p[b + i := F (chunk ! i) (k ! i)], k[i := st ! i])) [0..<m] (p, k)
         = (take b p @ ?Z @ drop (b + m) p, take m st @ drop m k)"
    using Suc by simp
  have lenZ: "length ?Z = m" using Suc.prems by simp
  have kread: "(take m st @ drop m k) ! m = k ! m"
    using Suc.prems by (simp add: nth_append)
  have pupd: "(take b p @ ?Z @ drop (b + m) p)[b + m := v]
              = take b p @ ?Z @ [v] @ drop (b + Suc m) p" for v
  proof -
    have "(take b p @ ?Z @ drop (b + m) p)[b + m := v]
          = ((take b p @ ?Z) @ drop (b + m) p)[length (take b p @ ?Z) := v]"
      using Suc.prems lenZ by simp
    also have "\<dots> = (take b p @ ?Z) @ v # tl (drop (b + m) p)"
      using Suc.prems by (intro list_update_append_hd) simp_all
    also have "tl (drop (b + m) p) = drop (b + Suc m) p"
      by (simp add: drop_Suc tl_drop)
    finally show ?thesis by simp
  qed
  have kupd: "(take m st @ drop m k)[m := st ! m] = take (Suc m) st @ drop (Suc m) k"
  proof -
    have "(take m st @ drop m k)[m := st ! m] = take m st @ (st ! m) # tl (drop m k)"
      using Suc.prems by (intro list_update_append_hd) simp_all
    also have "tl (drop m k) = drop (Suc m) k" by (simp add: drop_Suc tl_drop)
    finally show ?thesis using Suc.prems by (simp add: take_Suc_conv_app_nth)
  qed
  have Z': "map2 F (take (Suc m) chunk) (take (Suc m) k) = ?Z @ [F (chunk ! m) (k ! m)]"
    using Suc.prems by (simp add: take_Suc_conv_app_nth)
  show ?case
    by (simp only: upt_Suc_append le0 fold_append comp_apply IH fold_simps prod.case
          kread pupd kupd Z' append_assoc)
qed


lemma zip_take_right: "length xs \<le> n \<Longrightarrow> zip xs (take n ys) = zip xs ys"
  by (induction xs arbitrary: n ys) (auto simp: take_Cons' zip_Cons1 split: list.splits)

lemma maskChunk_eq:
  assumes H: "length (state S) = STATE_LENGTH" and key: "length key = HASH_LENGTH"
    and c: "c * HASH_LENGTH < length payload"
  defines "chunk \<equiv> take HASH_LENGTH (drop (c * HASH_LENGTH) payload)"
  shows "maskChunk c (payload, S, key) =
           (take (c * HASH_LENGTH) payload
              @ map2 (\<lambda>x k. toInt8 (tritSum x k)) chunk key
              @ drop (c * HASH_LENGTH + length chunk) payload,
            absorbChunk S chunk,
            take (length chunk) (rate (absorbChunk S chunk) HASH_LENGTH) @ drop (length chunk) key)"
proof -
  have sl: "slice payload (c * HASH_LENGTH) ((c + 1) * HASH_LENGTH) = chunk"
    by (simp add: slice_def chunk_def)
  have len: "length chunk \<le> HASH_LENGTH" by (simp add: chunk_def)
  have S': "length (state (absorbChunk S chunk)) = STATE_LENGTH"
    using H len by (simp add: length_absorbChunk STATE_LENGTH_def)
  have st: "length (rate (absorbChunk S chunk) HASH_LENGTH) = HASH_LENGTH"
    using S' by (simp add: length_rate STATE_LENGTH_def)
  have inner: "fold (\<lambda>i (p, k). (p[c * HASH_LENGTH + i := toInt8 (tritSum (chunk ! i) (k ! i))],
                                k[i := rate (absorbChunk S chunk) HASH_LENGTH ! i]))
              [0..<length chunk] (payload, key)
      = (take (c * HASH_LENGTH) payload
           @ map2 (\<lambda>x k. toInt8 (tritSum x k)) (take (length chunk) chunk) (take (length chunk) key)
           @ drop (c * HASH_LENGTH + length chunk) payload,
         take (length chunk) (rate (absorbChunk S chunk) HASH_LENGTH) @ drop (length chunk) key)"
    using len key st c
    by (intro maskInner [where F = "\<lambda>x k. toInt8 (tritSum x k)"]) (simp_all add: chunk_def)
  show ?thesis
    unfolding maskChunk_def prod.case sl Let_def absorb_whole_chunk [OF len] inner
    by (simp add: zip_take_right)
qed

lemma maskChunks_Nil [simp]: "maskChunks [] S = []"
  by (simp add: maskChunks.simps)

lemma maskChunks_step:
  "p \<noteq> [] \<Longrightarrow> maskChunks p S =
     map2 (\<lambda>x k. toInt8 (tritSum x k)) (take HASH_LENGTH p) (rate S HASH_LENGTH)
       @ maskChunks (drop HASH_LENGTH p) (absorbChunk S (take HASH_LENGTH p))"
  by (subst maskChunks.simps) (simp add: Let_def)

lemma mask_loop:
  assumes "length (state S) = STATE_LENGTH"
    and "length key = HASH_LENGTH"
    and "c0 < n \<Longrightarrow> key = rate S HASH_LENGTH"
    and "length payload \<le> n * HASH_LENGTH"
    and "\<And>c. c < n \<Longrightarrow> c * HASH_LENGTH < length payload"
  shows "fst (fold maskChunk [c0..<n] (payload, S, key))
           = take (c0 * HASH_LENGTH) payload @ maskChunks (drop (c0 * HASH_LENGTH) payload) S"
  using assms
proof (induction "n - c0" arbitrary: c0 payload S key)
  case 0
  then have le: "n \<le> c0" by simp
  then have "n * HASH_LENGTH \<le> c0 * HASH_LENGTH" by simp
  with 0 have "length payload \<le> c0 * HASH_LENGTH" by linarith
  with le show ?case by simp
next
  case (Suc d)
  then have c0n: "c0 < n" by simp
  let ?H = HASH_LENGTH
  let ?chunk = "take ?H (drop (c0 * ?H) payload)"
  let ?Z = "map2 (\<lambda>x k. toInt8 (tritSum x k)) ?chunk key"
  let ?S' = "absorbChunk S ?chunk"
  let ?key' = "take (length ?chunk) (rate ?S' ?H) @ drop (length ?chunk) key"
  let ?payload' = "take (c0 * ?H) payload @ ?Z @ drop (c0 * ?H + length ?chunk) payload"
  have inrange: "c0 * ?H < length payload" using Suc.prems(5) c0n by simp
  have keyeq: "key = rate S ?H" using Suc.prems(3) c0n by simp
  have step: "maskChunk c0 (payload, S, key) = (?payload', ?S', ?key')"
    using Suc.prems(1,2) inrange by (rule maskChunk_eq)
  have lenchunk: "length ?chunk = min ?H (length payload - c0 * ?H)" by simp
  have lenZ: "length ?Z = length ?chunk" using Suc.prems(2) by simp
  have S'len: "length (state ?S') = STATE_LENGTH"
    using Suc.prems(1) by (simp add: length_absorbChunk STATE_LENGTH_def)
  have ratelen: "length (rate ?S' ?H) = ?H"
    using S'len by (simp add: length_rate STATE_LENGTH_def)
  have key'len: "length ?key' = ?H"
    using Suc.prems(2) ratelen by simp
  have paylen: "length ?payload' = length payload"
    using inrange lenZ by simp
  have key'eq: "Suc c0 < n \<Longrightarrow> ?key' = rate ?S' ?H"
  proof -
    assume "Suc c0 < n"
    then have "Suc c0 * ?H < length payload" by (rule Suc.prems(5))
    then have "length ?chunk = ?H" by simp
    then show ?thesis using ratelen Suc.prems(2) by simp
  qed
  have IH: "fst (fold maskChunk [Suc c0..<n] (?payload', ?S', ?key'))
           = take (Suc c0 * ?H) ?payload' @ maskChunks (drop (Suc c0 * ?H) ?payload') ?S'"
  proof (rule Suc.hyps(1))
    show "d = n - Suc c0" using Suc.hyps(2) by simp
    show "length (state ?S') = STATE_LENGTH" by (rule S'len)
    show "length ?key' = ?H" by (rule key'len)
    show "Suc c0 < n \<Longrightarrow> ?key' = rate ?S' ?H" by (rule key'eq)
    show "length ?payload' \<le> n * ?H" unfolding paylen by (rule Suc.prems(4))
    show "\<And>c. c < n \<Longrightarrow> c * ?H < length ?payload'" unfolding paylen by (rule Suc.prems(5))
  qed
  have tk: "take (Suc c0 * ?H) ?payload' = take (c0 * ?H) payload @ ?Z"
    and dr: "drop (Suc c0 * ?H) ?payload' = drop ?H (drop (c0 * ?H) payload)"
  proof -
    have A: "length (take (c0 * ?H) payload) = c0 * ?H" using inrange by simp
    show "take (Suc c0 * ?H) ?payload' = take (c0 * ?H) payload @ ?Z"
    proof (cases "length ?chunk = ?H")
      case True
      then show ?thesis using A lenZ by simp
    next
      case False
      then have "drop (c0 * ?H + length ?chunk) payload = []" by (simp add: min_def split: if_splits)
      then show ?thesis using A lenZ lenchunk by simp
    qed
    show "drop (Suc c0 * ?H) ?payload' = drop ?H (drop (c0 * ?H) payload)"
    proof (cases "length ?chunk = ?H")
      case True
      then show ?thesis using A lenZ by (simp add: add.commute)
    next
      case False
      then have "drop (c0 * ?H + length ?chunk) payload = []"
        and "drop ?H (drop (c0 * ?H) payload) = []"
        by (simp_all add: min_def split: if_splits)
      then show ?thesis using A lenZ lenchunk by simp
    qed
  qed
  have ne: "drop (c0 * ?H) payload \<noteq> []" using inrange by simp
  have "fst (fold maskChunk [c0..<n] (payload, S, key))
        = fst (fold maskChunk [Suc c0..<n] (?payload', ?S', ?key'))"
    using c0n by (simp add: upt_conv_Cons step)
  also have "\<dots> = take (c0 * ?H) payload @ ?Z @ maskChunks (drop ?H (drop (c0 * ?H) payload)) ?S'"
    unfolding IH tk dr by simp
  also have "\<dots> = take (c0 * ?H) payload @ maskChunks (drop (c0 * ?H) payload) S"
    unfolding maskChunks_step [OF ne] keyeq by simp
  finally show ?case .
qed

lemma numChunks_upper:
  "length p \<le> ((length p + HASH_LENGTH - 1) div HASH_LENGTH) * HASH_LENGTH"
proof -
  let ?L = "length p + HASH_LENGTH - 1"
  have "?L mod HASH_LENGTH < HASH_LENGTH" by simp
  moreover have "?L div HASH_LENGTH * HASH_LENGTH + ?L mod HASH_LENGTH = ?L" by simp
  ultimately show ?thesis by linarith
qed

lemma numChunks_lower:
  assumes "c < (length p + HASH_LENGTH - 1) div HASH_LENGTH"
  shows "c * HASH_LENGTH < length p"
proof -
  let ?L = "length p + HASH_LENGTH - 1"
  from assms have "Suc c \<le> ?L div HASH_LENGTH" by simp
  then have "Suc c * HASH_LENGTH \<le> ?L div HASH_LENGTH * HASH_LENGTH" by (rule mult_le_mono1)
  also have "\<dots> \<le> ?L" by simp
  finally have "c * HASH_LENGTH + HASH_LENGTH \<le> length p + HASH_LENGTH - 1" by simp
  moreover have "0 < HASH_LENGTH" by simp
  ultimately show ?thesis by linarith
qed

lemma mask_maskChunks:
  assumes "length (state S) = STATE_LENGTH"
  shows "fst (mask p S) = maskChunks p S"
proof -
  let ?n = "(length p + HASH_LENGTH - 1) div HASH_LENGTH"
  have "fst (fold maskChunk [0..<?n] (p, S, rate S HASH_LENGTH))
           = take (0 * HASH_LENGTH) p @ maskChunks (drop (0 * HASH_LENGTH) p) S"
    using assms
    by (intro mask_loop numChunks_upper numChunks_lower) (simp_all add: length_rate STATE_LENGTH_def)
  then show ?thesis by (simp add: mask_def Let_def split_beta)
qed


lemma unmaskChunks_Nil [simp]: "unmaskChunks [] S = []"
  by (simp add: unmaskChunks.simps)

lemma unmaskChunks_step:
  "q \<noteq> [] \<Longrightarrow> unmaskChunks q S =
     map2 (\<lambda>x k. toInt8 (tritSum x (- k))) (take HASH_LENGTH q) (rate S HASH_LENGTH)
       @ unmaskChunks (drop HASH_LENGTH q)
           (absorbChunk S (map2 (\<lambda>x k. toInt8 (tritSum x (- k))) (take HASH_LENGTH q) (rate S HASH_LENGTH)))"
  by (subst unmaskChunks.simps) (simp add: Let_def)

lemma unmaskInner:
  fixes u :: trits
  assumes key: "key = rate S HASH_LENGTH" "length key = HASH_LENGTH"
    and k: "k * HASH_LENGTH < length u"
    and j: "j \<le> HASH_LENGTH"
  defines "G \<equiv> \<lambda>x s. toInt8 (tritSum x (- s))"
  shows "fold unmaskStep [k * HASH_LENGTH..<k * HASH_LENGTH + j] (u, S, st)
         = (take (k * HASH_LENGTH) u
              @ map2 G (take j (drop (k * HASH_LENGTH) u)) (take j key)
              @ drop (k * HASH_LENGTH + j) u,
            (if j = HASH_LENGTH
             then absorbChunk S (map2 G (take HASH_LENGTH (drop (k * HASH_LENGTH) u)) key)
             else S),
            (if j = 0 then st else key))"
  using j
proof (induction j)
  case 0
  then show ?case by simp
next
  case (Suc j)
  let ?H = HASH_LENGTH
  let ?b = "k * ?H"
  let ?Z = "map2 G (take j (drop ?b u)) (take j key)"
  let ?u = "take ?b u @ ?Z @ drop (?b + j) u"
  let ?st = "if j = 0 then st else key"
  have jH: "j < ?H" using Suc.prems by simp
  have IH: "fold unmaskStep [?b..<?b + j] (u, S, st) = (?u, S, ?st)"
    using Suc.IH jH by simp
  have idx: "(?b + j) mod ?H = j" and dv: "(?b + j) div ?H * ?H = ?b"
    using jH by simp_all
  have st': "(if j = 0 then rate S ?H else ?st) = key" using key(1) by simp
  have lenu: "length ?u = length u" using k jH key(2) by (auto simp: min_def)
  let ?Z' = "map2 G (take (Suc j) (drop ?b u)) (take (Suc j) key)"
  let ?u' = "take ?b u @ ?Z' @ drop (?b + Suc j) u"
  have upd: "(if ?b + j < length ?u
              then ?u[?b + j := toInt8 (tritSum (?u ! (?b + j)) (- (key ! j)))] else ?u) = ?u'"
  proof (cases "?b + j < length u")
    case True
    have lenZ: "length ?Z = j" using True jH key(2) by simp
    have A: "length (take ?b u @ ?Z) = ?b + j" using True lenZ by simp
    have rd: "?u ! (?b + j) = u ! (?b + j)"
    proof -
      have "?u ! (?b + j) = ((take ?b u @ ?Z) @ drop (?b + j) u) ! (length (take ?b u @ ?Z) + 0)"
        unfolding A by simp
      also have "\<dots> = drop (?b + j) u ! 0" by (rule nth_append_length_plus)
      finally show ?thesis using True by simp
    qed
    have "?u[?b + j := v] = take ?b u @ ?Z @ [v] @ drop (?b + Suc j) u" for v
    proof -
      have "?u[?b + j := v] = ((take ?b u @ ?Z) @ drop (?b + j) u)[length (take ?b u @ ?Z) := v]"
        unfolding A by simp
      also have "\<dots> = (take ?b u @ ?Z) @ v # tl (drop (?b + j) u)"
        using True by (intro list_update_append_hd) simp_all
      also have "tl (drop (?b + j) u) = drop (?b + Suc j) u" by (simp add: drop_Suc tl_drop)
      finally show ?thesis by simp
    qed
    moreover have "?Z' = ?Z @ [G (u ! (?b + j)) (key ! j)]"
      using True jH key(2) by (simp add: take_Suc_conv_app_nth)
    ultimately show ?thesis using True lenu rd by (simp add: G_def)
  next
    case False
    have e1: "take (Suc j) (drop ?b u) = take j (drop ?b u)" using False by simp
    have e2: "drop (?b + Suc j) u = drop (?b + j) u" using False by simp
    have "length (take j (drop ?b u)) \<le> j" by simp
    then have e3: "zip (take j (drop ?b u)) (take (Suc j) key) = zip (take j (drop ?b u)) (take j key)"
      by (simp add: zip_take_right)
    have same: "?u' = ?u" unfolding e1 e2 e3 ..
    show ?thesis by (simp only: lenu False if_False same)
  qed
  have ab: "absorb S ?u' ?b ?H = absorbChunk S (map2 G (take ?H (drop ?b u)) key)" if "Suc j = ?H"
  proof -
    have Z'H: "?Z' = map2 G (take ?H (drop ?b u)) key" using that key(2) by simp
    have A: "length (take ?b u) = ?b" using k by simp
    have "slice ?u' ?b (?b + ?H) = take ?H (?Z' @ drop (?b + Suc j) u)"
      using A by (simp add: slice_def)
    also have "\<dots> = ?Z'"
    proof (cases "?b + ?H \<le> length u")
      case True
      then have "length ?Z' = ?H" using that key(2) by simp
      then show ?thesis by simp
    next
      case False
      then have "drop (?b + Suc j) u = []" using that by simp
      moreover have "length ?Z' \<le> ?H" using that by simp
      ultimately show ?thesis by simp
    qed
    finally have sl: "slice ?u' ?b (?b + ?H) = ?Z'" .
    have "absorb S ?u' ?b ?H = transform (S\<lparr>state := setAt (state S) (slice ?u' ?b (?b + ?H)) 0\<rparr>)"
      by (rule absorb_short) simp
    also have "\<dots> = absorbChunk S ?Z'"
      unfolding sl absorbChunk_def setAt_def by simp
    finally show ?thesis unfolding Z'H .
  qed
  have "fold unmaskStep [?b..<?b + Suc j] (u, S, st) = unmaskStep (?b + j) (?u, S, ?st)"
    by (simp add: IH)
  also have "\<dots> = (?u', (if Suc j = ?H then absorb S ?u' ?b ?H else S), key)"
    unfolding unmaskStep_def prod.case Let_def idx dv st' upd
    using jH by (auto simp: HASH_LENGTH_def)
  also have "\<dots> = (?u', (if Suc j = ?H then absorbChunk S (map2 G (take ?H (drop ?b u)) key) else S),
                    (if Suc j = 0 then st else key))"
    using ab by simp
  finally show ?case .
qed


lemma unmask_loop:
  assumes "length (state S) = STATE_LENGTH"
    and "length u \<le> n * HASH_LENGTH"
    and "\<And>c. c < n \<Longrightarrow> c * HASH_LENGTH < length u"
  shows "fst (fold unmaskStep [c0 * HASH_LENGTH..<n * HASH_LENGTH] (u, S, st))
           = take (c0 * HASH_LENGTH) u @ unmaskChunks (drop (c0 * HASH_LENGTH) u) S"
  using assms
proof (induction "n - c0" arbitrary: c0 u S st)
  case 0
  then have le: "n \<le> c0" by simp
  then have nc: "n * HASH_LENGTH \<le> c0 * HASH_LENGTH" by simp
  with 0 have "length u \<le> c0 * HASH_LENGTH" by linarith
  with nc show ?case by simp
next
  case (Suc d)
  then have c0n: "c0 < n" by simp
  let ?H = HASH_LENGTH
  let ?b = "c0 * ?H"
  let ?key = "rate S ?H"
  let ?G = "\<lambda>x s. toInt8 (tritSum x (- s))"
  let ?Z = "map2 ?G (take ?H (drop ?b u)) ?key"
  let ?S' = "absorbChunk S ?Z"
  let ?u' = "take ?b u @ ?Z @ drop (?b + ?H) u"
  have inrange: "?b < length u" using Suc.prems(3) c0n by simp
  have keylen: "length ?key = ?H"
    using Suc.prems(1) by (simp add: length_rate STATE_LENGTH_def)
  have chunk: "fold unmaskStep [?b..<?b + ?H] (u, S, st) = (?u', ?S', ?key)"
    using unmaskInner [OF refl keylen inrange order_refl, of st] keylen by simp
  have lenZ: "length ?Z = min ?H (length u - ?b)" using keylen by simp
  have S'len: "length (state ?S') = STATE_LENGTH"
    using Suc.prems(1) lenZ by (simp add: length_absorbChunk STATE_LENGTH_def)
  have ulen: "length ?u' = length u" using inrange lenZ by (auto simp: min_def)
  have IH: "fst (fold unmaskStep [Suc c0 * ?H..<n * ?H] (?u', ?S', ?key))
           = take (Suc c0 * ?H) ?u' @ unmaskChunks (drop (Suc c0 * ?H) ?u') ?S'"
  proof (rule Suc.hyps(1))
    show "d = n - Suc c0" using Suc.hyps(2) by simp
    show "length (state ?S') = STATE_LENGTH" by (rule S'len)
    show "length ?u' \<le> n * ?H" unfolding ulen by (rule Suc.prems(2))
    show "\<And>c. c < n \<Longrightarrow> c * ?H < length ?u'" unfolding ulen by (rule Suc.prems(3))
  qed
  have A: "length (take ?b u) = ?b" using inrange by simp
  have tk: "take (Suc c0 * ?H) ?u' = take ?b u @ ?Z"
  proof (cases "length ?Z = ?H")
    case True
    then show ?thesis using A by simp
  next
    case False
    then have "drop (?b + ?H) u = []" using lenZ by (simp add: min_def split: if_splits)
    then show ?thesis using A lenZ by simp
  qed
  have dr: "drop (Suc c0 * ?H) ?u' = drop ?H (drop ?b u)"
  proof (cases "length ?Z = ?H")
    case True
    then show ?thesis using A by (simp add: add.commute)
  next
    case False
    then have "drop (?b + ?H) u = []" and "drop ?H (drop ?b u) = []"
      using lenZ by (simp_all add: min_def split: if_splits)
    then show ?thesis using A lenZ by simp
  qed
  have ne: "drop ?b u \<noteq> []" using inrange by simp
  have split: "[?b..<n * ?H] = [?b..<?b + ?H] @ [Suc c0 * ?H..<n * ?H]"
  proof -
    from c0n have "Suc c0 * ?H \<le> n * ?H" by (intro mult_le_mono1) simp
    then have "?b + ?H \<le> n * ?H" by simp
    then obtain r where r: "n * ?H = (?b + ?H) + r" using le_Suc_ex by blast
    have "[?b..<(?b + ?H) + r] = [?b..<?b + ?H] @ [?b + ?H..<(?b + ?H) + r]"
      by (rule upt_add_eq_append) simp
    moreover have "Suc c0 * ?H = ?b + ?H" by simp
    ultimately show ?thesis by (simp only: r)
  qed
  have "fst (fold unmaskStep [?b..<n * ?H] (u, S, st))
        = fst (fold unmaskStep [Suc c0 * ?H..<n * ?H] (?u', ?S', ?key))"
    unfolding split fold_append comp_apply chunk ..
  also have "\<dots> = take ?b u @ ?Z @ unmaskChunks (drop ?H (drop ?b u)) ?S'"
    unfolding IH tk dr by simp
  also have "\<dots> = take ?b u @ unmaskChunks (drop ?b u) S"
    unfolding unmaskChunks_step [OF ne] by simp
  finally show ?case .
qed

lemma unmask_unmaskChunks:
  assumes "length (state S) = STATE_LENGTH"
  shows "fst (unmask q S) = unmaskChunks q S"
proof -
  let ?n = "(length q + HASH_LENGTH - 1) div HASH_LENGTH"
  have "fst (fold unmaskStep [0 * HASH_LENGTH..<?n * HASH_LENGTH] (q, S, []))
           = take (0 * HASH_LENGTH) q @ unmaskChunks (drop (0 * HASH_LENGTH) q) S"
    using assms by (intro unmask_loop numChunks_upper numChunks_lower)
  then show ?thesis by (simp add: unmask_def Let_def split_beta)
qed

text \<open>
  C6.  For a buffer of trits of any length and a sponge whose state is 729 trits,
  masking the buffer and unmasking the result with a sponge in the same state gives the
  buffer back.
\<close>

theorem unmask_mask:
  assumes "length (state S) = STATE_LENGTH" "isTrits (state S)" "isTrits p"
  shows "fst (unmask (fst (mask p S)) S) = p"
proof -
  have "curlOK S" using assms(1,2) by (simp add: curlOK_def)
  then show ?thesis
    using assms(1,3) by (simp add: mask_maskChunks unmask_unmaskChunks unmaskChunks_maskChunks)
qed

theorem unmask_mask_witness:
  "length (state (newCurl 27)) = STATE_LENGTH \<and> isTrits (state (newCurl 27))
   \<and> isTrits [1, 0, -1]
   \<and> fst (unmask (fst (mask [1, 0, -1] (newCurl 27))) (newCurl 27)) = [1, 0, -1]"
proof -
  have a: "length (state (newCurl 27)) = STATE_LENGTH" by (simp add: newCurl_def)
  have b: "isTrits (state (newCurl 27))" by (simp add: newCurl_def)
  have c: "isTrits [1, 0, -1]" by (simp add: isTrits_def isTrit_def)
  from a b c unmask_mask [OF a b c] show ?thesis by simp
qed

section \<open>Signing\<close>

lemma fold_const_funpow: "fold (\<lambda>k. f) [0..<n] x = (f ^^ n) x"
  by (induction n) simp_all

lemma rounds_absorbChunk [simp]: "rounds (absorbChunk c b) = rounds c"
  by (simp add: absorbChunk_def)

lemma rounds_absorb [simp]: "rounds (absorb c ts off len) = rounds c"
proof (induction c ts off len rule: absorb.induct)
  case (1 c ts offset len)
  show ?case
    by (subst absorb.simps) (simp add: Let_def 1)
qed

lemma reset_newCurl: "rounds c = 27 \<Longrightarrow> reset c = newCurl 27"
  by (simp add: reset_def newCurl_def)

lemma reset_newCurl' [simp]: "reset (newCurl r) = newCurl r"
  by (simp add: reset_def newCurl_def)

lemma state_newCurl [simp]: "length (state (newCurl r)) = STATE_LENGTH"
  by (simp add: newCurl_def)

lemma rounds_newCurl [simp]: "rounds (newCurl r) = r"
  by (simp add: newCurl_def)

lemma STATE_LENGTH_eq: "STATE_LENGTH = 3 * HASH_LENGTH"
  by (simp add: STATE_LENGTH_def)

lemma length_hashBlock [simp]: "length b \<le> HASH_LENGTH \<Longrightarrow> length (hashBlock b) = HASH_LENGTH"
  by (simp add: hashBlock_def absorbChunk_def STATE_LENGTH_eq)

lemma chainStep_hashBlock:
  "length b \<le> HASH_LENGTH \<Longrightarrow> chainStep (newCurl 27) b = hashBlock b"
  by (simp add: chainStep_def hashBlock_def absorb_whole_chunk rate_def slice_def)

lemma length_funpow_hashBlock [simp]:
  "length b = HASH_LENGTH \<Longrightarrow> length ((hashBlock ^^ n) b) = HASH_LENGTH"
  by (induction n) simp_all

lemma chain_funpow:
  "length b = HASH_LENGTH \<Longrightarrow> (chainStep (newCurl 27) ^^ n) b = (hashBlock ^^ n) b"
  by (induction n) (simp_all add: chainStep_hashBlock)

text \<open>Buffers made of blocks of 243 trits.\<close>

lemma length_concat_blocks:
  "(\<And>i. i < n \<Longrightarrow> length (F i) = h) \<Longrightarrow> length (concat (map F [0..<n])) = n * h"
  by (induction n) simp_all

lemma slice_concat_blocks:
  assumes "\<And>j. j < n \<Longrightarrow> length (F j) = h" "i < n"
  shows "slice (concat (map F [0..<n])) (i * h) ((i + 1) * h) = F i"
proof -
  have split: "[0..<n] = [0..<i] @ i # [Suc i..<n]"
    using assms(2) by (metis le0 less_imp_le_nat upt_add_eq_append upt_conv_Cons le_Suc_ex)
  have li: "length (concat (map F [0..<i])) = i * h"
    using assms by (intro length_concat_blocks) simp
  have "length (F i) = h" using assms by simp
  then show ?thesis
    unfolding split by (simp add: slice_def li)
qed

lemma setAt_blocks:
  assumes "\<And>j. j < n \<Longrightarrow> length (F j) = h" "m \<le> n" "length dst = n * h"
  shows "fold (\<lambda>i d. setAt d (F i) (i * h)) [0..<m] dst
         = concat (map F [0..<m]) @ drop (m * h) dst"
  using assms(2)
proof (induction m)
  case 0
  then show ?case by simp
next
  case (Suc m)
  have lm: "length (concat (map F [0..<m])) = m * h"
    using assms(1) Suc.prems by (intro length_concat_blocks) simp
  have lF: "length (F m) = h" using assms(1) Suc.prems by simp
  have "m * h + h \<le> n * h" using Suc.prems by (metis Suc_leI mult_Suc mult_le_mono1 add.commute Suc_le_eq)
  then have "setAt (concat (map F [0..<m]) @ drop (m * h) dst) (F m) (m * h)
        = concat (map F [0..<m]) @ F m @ drop (Suc m * h) dst"
    using lm lF assms(3) by (simp add: setAt_def add.commute)
  then show ?case using Suc by simp
qed

lemma foldOpt_Some:
  assumes "\<And>x s. x \<in> set xs \<Longrightarrow> I s \<Longrightarrow> f x s = Some (g x s) \<and> I (g x s)" "I s"
  shows "foldOpt f xs s = Some (fold g xs s) \<and> I (fold g xs s)"
proof -
  have "fold (\<lambda>x acc. Option.bind acc (f x)) xs (Some s) = Some (fold g xs s) \<and> I (fold g xs s)"
    using assms by (induction xs arbitrary: s) simp_all
  then show ?thesis by (simp add: foldOpt_def)
qed

lemma setChecked_blocks:
  fixes F :: "nat \<Rightarrow> 'a list"
  assumes "\<And>j. j < n \<Longrightarrow> length (F j) = h" "length dst = n * h"
  shows "foldOpt (\<lambda>i d. setChecked d (F i) (i * h)) [0..<n] dst = Some (concat (map F [0..<n]))"
proof -
  have "foldOpt (\<lambda>i d. setChecked d (F i) (i * h)) [0..<n] dst
        = Some (fold (\<lambda>i d. setAt d (F i) (i * h)) [0..<n] dst)
        \<and> length (fold (\<lambda>i d. setAt d (F i) (i * h)) [0..<n] dst) = n * h"
  proof (rule foldOpt_Some [where I = "\<lambda>d. length d = n * h"])
    fix x :: nat and s :: "'a list"
    assume x: "x \<in> set [0..<n]" and s: "length s = n * h"
    then have "x < n" by simp
    then have lF: "length (F x) = h" and "x * h + h \<le> n * h"
      using assms(1) by (simp, metis Suc_leI mult_Suc mult_le_mono1 add.commute)
    then show "setChecked s (F x) (x * h) = Some (setAt s (F x) (x * h))
               \<and> length (setAt s (F x) (x * h)) = n * h"
      using s by (simp add: setChecked_def setAt_def)
  qed (rule assms(2))
  then show ?thesis using setAt_blocks [OF assms(1) order_refl assms(2)] assms(2) by simp
qed


lemma squeeze_short:
  "len \<le> HASH_LENGTH \<Longrightarrow>
   squeeze c ts off len = (setAt ts (slice (state c) 0 len) off, transform c)"
  by (subst squeeze.simps) (auto simp: Let_def)

lemma squeeze_block:
  assumes "length ts = HASH_LENGTH" "HASH_LENGTH \<le> length (state c)"
  shows "squeeze c ts 0 (length ts) = (take HASH_LENGTH (state c), transform c)"
  using assms by (simp add: squeeze_short setAt_def slice_def)

lemma length_funpow_transform [simp]: "length (state ((transform ^^ i) c)) = length (state c)"
  by (induction i) simp_all

lemma rounds_funpow_transform [simp]: "rounds ((transform ^^ i) c) = rounds c"
  by (induction i) simp_all

lemma length_squeezed [simp]:
  "HASH_LENGTH \<le> length (state c) \<Longrightarrow> length (squeezed c i) = HASH_LENGTH"
  by (simp add: squeezed_def)

lemma squeeze_blocks:
  assumes "0 < n" "HASH_LENGTH \<le> length (state c)" "off + n * HASH_LENGTH \<le> length ts"
  shows "squeeze c ts off (n * HASH_LENGTH)
         = (take off ts @ concat (map (squeezed c) [0..<n]) @ drop (off + n * HASH_LENGTH) ts,
            (transform ^^ n) c)"
  using assms
proof (induction n arbitrary: c ts off)
  case 0
  then show ?case by simp
next
  case (Suc n)
  let ?H = HASH_LENGTH
  let ?ts' = "setAt ts (slice (state c) 0 ?H) off"
  have sl: "slice (state c) 0 ?H = squeezed c 0" by (simp add: slice_def squeezed_def)
  have l0: "length (squeezed c 0) = ?H" using Suc.prems(2) by simp
  have ts': "?ts' = take off ts @ squeezed c 0 @ drop (off + ?H) ts"
    by (simp add: setAt_def sl l0)
  have lts': "length ?ts' = length ts" using Suc.prems(3) l0 by (simp add: ts')
  show ?case
  proof (cases "n = 0")
    case True
    then show ?thesis by (simp add: squeeze_short ts')
  next
    case False
    then have big: "Suc n * ?H > ?H" by simp
    have unfold: "squeeze c ts off (Suc n * ?H) = squeeze (transform c) ?ts' (off + ?H) (n * ?H)"
      using big by (subst squeeze.simps) (simp add: Let_def)
    have IH: "squeeze (transform c) ?ts' (off + ?H) (n * ?H)
         = (take (off + ?H) ?ts' @ concat (map (squeezed (transform c)) [0..<n])
              @ drop (off + ?H + n * ?H) ?ts',
            (transform ^^ n) (transform c))"
      using False Suc.prems lts' by (intro Suc.IH) simp_all
    have shift: "map (squeezed (transform c)) [0..<n] = map (squeezed c) [Suc 0..<Suc n]"
      by (simp add: squeezed_def funpow_swap1 map_Suc_upt [symmetric] del: upt_Suc)
    have lt: "length (take off ts) = off" using Suc.prems(3) by simp
    have tk: "take (off + ?H) ?ts' = take off ts @ squeezed c 0"
      unfolding ts' using lt l0 by simp
    have dr: "drop (off + ?H + n * ?H) ?ts' = drop (off + Suc n * ?H) ts"
      unfolding ts' using lt l0 by (simp add: ac_simps)
    have "concat (map (squeezed c) [0..<Suc n])
          = squeezed c 0 @ concat (map (squeezed c) [Suc 0..<Suc n])"
      by (simp add: upt_conv_Cons del: upt_Suc)
    then show ?thesis
      unfolding unfold IH tk dr shift by (simp add: funpow_swap1)
  qed
qed

lemma absorb_blocks:
  assumes "0 < n" "off + n * HASH_LENGTH \<le> length ts"
  shows "absorb c ts off (n * HASH_LENGTH)
         = fold (\<lambda>i c. absorbChunk c (slice ts (off + i * HASH_LENGTH) (off + (i + 1) * HASH_LENGTH)))
             [0..<n] c"
  using assms
proof (induction n arbitrary: c off)
  case 0
  then show ?case by simp
next
  case (Suc n)
  let ?H = HASH_LENGTH
  let ?c' = "absorbChunk c (slice ts off (off + ?H))"
  have lsl: "length (slice ts off (off + ?H)) = ?H" using Suc.prems(2) by (simp add: slice_def)
  have first: "transform (c\<lparr>state := setAt (state c) (slice ts off (off + ?H)) 0\<rparr>) = ?c'"
    by (simp add: absorbChunk_def setAt_def)
  show ?case
  proof (cases "n = 0")
    case True
    then show ?thesis by (simp add: absorb_short first)
  next
    case False
    have unfold: "absorb c ts off (Suc n * ?H) = absorb ?c' ts (off + ?H) (n * ?H)"
      using False by (subst absorb.simps) (simp add: Let_def first)
    have IH: "absorb ?c' ts (off + ?H) (n * ?H)
         = fold (\<lambda>i c. absorbChunk c (slice ts (off + ?H + i * ?H) (off + ?H + (i + 1) * ?H)))
             [0..<n] ?c'"
      using False Suc.prems by (intro Suc.IH) simp_all
    have "fold (\<lambda>i c. absorbChunk c (slice ts (off + i * ?H) (off + (i + 1) * ?H))) [0..<Suc n] c
          = fold (\<lambda>i c. absorbChunk c (slice ts (off + i * ?H) (off + (i + 1) * ?H)))
              (map Suc [0..<n]) ?c'"
      by (simp add: upt_conv_Cons map_Suc_upt del: upt_Suc)
    also have "\<dots> = fold (\<lambda>i c. absorbChunk c (slice ts (off + ?H + i * ?H) (off + ?H + (i + 1) * ?H)))
             [0..<n] ?c'"
      by (simp add: fold_map comp_def add.assoc)
    finally show ?thesis unfolding unfold IH by simp
  qed
qed


lemma length_absorb [simp]:
  "HASH_LENGTH \<le> length (state c) \<Longrightarrow> length (state (absorb c ts off len)) = length (state c)"
proof (induction c ts off len rule: absorb.induct)
  case (1 c ts offset len)
  let ?limit = "if len < HASH_LENGTH then len else HASH_LENGTH"
  let ?c' = "transform (c\<lparr>state := setAt (state c) (slice ts offset (offset + ?limit)) 0\<rparr>)"
  have l: "length (state ?c') = length (state c)"
    using "1.prems" by (simp add: setAt_def slice_def)
  show ?case
  proof (cases "len > HASH_LENGTH")
    case True
    then have "absorb c ts offset len = absorb ?c' ts (offset + ?limit) (len - HASH_LENGTH)"
      by (subst absorb.simps) (simp add: Let_def)
    moreover have "length (state (absorb ?c' ts (offset + ?limit) (len - HASH_LENGTH))) = length (state ?c')"
      using True "1.prems" l by (intro "1.IH") simp_all
    ultimately show ?thesis using l by simp
  next
    case False
    then have "absorb c ts offset len = ?c'"
      by (subst absorb.simps) (simp add: Let_def)
    then show ?thesis using l by simp
  qed
qed

lemma subseedSponge_state [simp]: "length (state (subseedSponge ss)) = STATE_LENGTH"
  by (simp add: subseedSponge_def STATE_LENGTH_eq)

lemma subseedSponge_rounds [simp]: "rounds (subseedSponge ss) = 27"
  by (simp add: subseedSponge_def)

lemma length_squeezed_subseed [simp]: "length (squeezed (subseedSponge ss) i) = HASH_LENGTH"
  by (simp add: STATE_LENGTH_eq)

lemma length_keyBlock [simp]: "length (keyBlock ss i) = HASH_LENGTH"
  by (simp add: keyBlock_def)

lemma length_digestBlock [simp]: "length (digestBlock ss i) = HASH_LENGTH"
  by (simp add: digestBlock_def)

lemma fragments: "L * PRIVATE_KEY_FRAGMENT_LENGTH = (27 * L) * HASH_LENGTH"
  by (simp add: PRIVATE_KEY_FRAGMENT_LENGTH_def PRIVATE_KEY_NUM_FRAGMENTS_def)

lemma privateKeyFromSubseed_blocks:
  assumes "0 < L"
  shows "privateKeyFromSubseed ss L = concat (map (keyBlock ss) [0..<27 * L])"
proof -
  let ?n = "27 * L"
  let ?H = HASH_LENGTH
  let ?keyTrits = "concat (map (squeezed (subseedSponge ss)) [0..<?n])"
  let ?sponge' = "(transform ^^ ?n) (subseedSponge ss)"
  have sq: "squeeze (subseedSponge ss) (replicate (?n * ?H) 0) 0 (?n * ?H) = (?keyTrits, ?sponge')"
    using assms squeeze_blocks [of ?n "subseedSponge ss" 0 "replicate (?n * ?H) 0"]
    by (simp add: STATE_LENGTH_eq)
  have blk: "setAt d (rate (absorb (reset ?sponge') ?keyTrits (i * ?H) ?H) ?H) (i * ?H)
             = setAt d (keyBlock ss i) (i * ?H)" if "i < ?n" for i and d :: trits
  proof -
    have "slice ?keyTrits (i * ?H) ((i + 1) * ?H) = squeezed (subseedSponge ss) i"
      using that by (intro slice_concat_blocks) simp_all
    then have sl: "slice ?keyTrits (i * ?H) (i * ?H + ?H) = squeezed (subseedSponge ss) i"
      by (simp add: ac_simps)
    have "absorb (reset ?sponge') ?keyTrits (i * ?H) ?H
          = transform ((newCurl 27)\<lparr>state := setAt (state (newCurl 27))
                         (slice ?keyTrits (i * ?H) (i * ?H + ?H)) 0\<rparr>)"
      by (simp add: absorb_short reset_newCurl)
    also have "\<dots> = absorbChunk (newCurl 27) (squeezed (subseedSponge ss) i)"
      unfolding sl by (simp add: absorbChunk_def setAt_def)
    finally show ?thesis by (simp add: keyBlock_def hashBlock_def rate_def slice_def)
  qed
  have "fold (\<lambda>i actualKeyTrits.
                 let offset = i * ?H;
                     s = absorb (reset ?sponge') ?keyTrits offset ?H
                 in setAt actualKeyTrits (rate s ?H) offset) [0..<?n] (replicate (?n * ?H) 0)
        = fold (\<lambda>i d. setAt d (keyBlock ss i) (i * ?H)) [0..<?n] (replicate (?n * ?H) 0)"
    by (rule fold_cong) (simp_all add: Let_def blk)
  also have "\<dots> = concat (map (keyBlock ss) [0..<?n]) @ drop (?n * ?H) (replicate (?n * ?H) 0)"
    by (rule setAt_blocks [where n = ?n]) simp_all
  finally show ?thesis
    unfolding privateKeyFromSubseed_def fragments Let_def subseedSponge_def [symmetric] sq
    by simp
qed


lemma foldOpt_cong:
  "(\<And>x. x \<in> set xs \<Longrightarrow> f x = g x) \<Longrightarrow> foldOpt f xs s = foldOpt g xs s"
  unfolding foldOpt_def by (rule fold_cong) simp_all

lemma numChunks_blocks [simp]: "(n * HASH_LENGTH + HASH_LENGTH - 1) div HASH_LENGTH = n"
proof -
  have "(n * HASH_LENGTH + (HASH_LENGTH - 1)) div HASH_LENGTH = n"
    by (simp add: HASH_LENGTH_def)
  then show ?thesis by (simp add: HASH_LENGTH_def)
qed

text \<open>The loop shared by \<open>signature\<close> and \<open>digestFromSignature\<close>, on a buffer of whole
  blocks: block \<open>i\<close> goes \<open>cnt i\<close> turns along the hash chain.\<close>

lemma chain_blocks:
  fixes B :: "nat \<Rightarrow> trits"
  assumes "\<And>i. i < n \<Longrightarrow> length (B i) = HASH_LENGTH"
  defines "buf \<equiv> concat (map B [0..<n])"
  shows "foldOpt (\<lambda>i d. setChecked d
                    (fold (\<lambda>k. chainStep (newCurl 27)) [0..<cnt i]
                       (slice buf (i * HASH_LENGTH) ((i + 1) * HASH_LENGTH)))
                    (i * HASH_LENGTH))
           [0..<(length buf + HASH_LENGTH - 1) div HASH_LENGTH] (replicate (length buf) 0)
         = Some (concat (map (\<lambda>i. (hashBlock ^^ cnt i) (B i)) [0..<n]))"
proof -
  have len: "length buf = n * HASH_LENGTH"
    unfolding buf_def using assms(1) by (rule length_concat_blocks)
  have "foldOpt (\<lambda>i d. setChecked d
                    (fold (\<lambda>k. chainStep (newCurl 27)) [0..<cnt i]
                       (slice buf (i * HASH_LENGTH) ((i + 1) * HASH_LENGTH)))
                    (i * HASH_LENGTH)) [0..<n] (replicate (n * HASH_LENGTH) 0)
        = foldOpt (\<lambda>i d. setChecked d ((hashBlock ^^ cnt i) (B i)) (i * HASH_LENGTH))
            [0..<n] (replicate (n * HASH_LENGTH) 0)"
  proof (rule foldOpt_cong)
    fix i assume "i \<in> set [0..<n]"
    then have i: "i < n" by simp
    have "slice buf (i * HASH_LENGTH) ((i + 1) * HASH_LENGTH) = B i"
      unfolding buf_def using assms(1) i by (rule slice_concat_blocks)
    then show "(\<lambda>d. setChecked d
                    (fold (\<lambda>k. chainStep (newCurl 27)) [0..<cnt i]
                       (slice buf (i * HASH_LENGTH) ((i + 1) * HASH_LENGTH)))
                    (i * HASH_LENGTH))
          = (\<lambda>d. setChecked d ((hashBlock ^^ cnt i) (B i)) (i * HASH_LENGTH))"
      using assms(1) [OF i] by (simp only: fold_const_funpow chain_funpow)
  qed
  also have "\<dots> = Some (concat (map (\<lambda>i. (hashBlock ^^ cnt i) (B i)) [0..<n]))"
    using assms(1) by (intro setChecked_blocks) simp_all
  finally show ?thesis by (simp only: len numChunks_blocks)
qed

lemma tryteAt_Some:
  "length h = 243 \<Longrightarrow> i < 81 \<Longrightarrow>
   tryteAt h i = Some (h ! (i * 3) + h ! (i * 3 + 1) * 3 + h ! (i * 3 + 2) * 9)"
  by (simp add: tryteAt_def)

lemma signature_blocks:
  assumes "length h = 243" "n \<le> 81"
  shows "signature h (concat (map (keyBlock ss) [0..<n]))
         = Some (concat (map (\<lambda>i. (hashBlock ^^ (case tryteAt h i of None \<Rightarrow> 0
                          | Some tv \<Rightarrow> nat (MAX_TRYTE_VALUE - tv))) (keyBlock ss i)) [0..<n]))"
  unfolding signature_def Let_def
  by (rule chain_blocks) simp

lemma digestFromSignature_blocks:
  fixes B :: "nat \<Rightarrow> trits"
  assumes "\<And>i. i < n \<Longrightarrow> length (B i) = HASH_LENGTH" "0 < n"
  shows "digestFromSignature h (concat (map B [0..<n]))
         = Some (take HASH_LENGTH (state (fold (\<lambda>i c. absorbChunk c
                   ((hashBlock ^^ (case tryteAt h i of None \<Rightarrow> 0
                          | Some tv \<Rightarrow> nat (tv - MIN_TRYTE_VALUE))) (B i))) [0..<n] (newCurl 27))))"
proof -
  let ?D = "\<lambda>i. (hashBlock ^^ (case tryteAt h i of None \<Rightarrow> 0
                          | Some tv \<Rightarrow> nat (tv - MIN_TRYTE_VALUE))) (B i)"
  let ?bytes = "concat (map ?D [0..<n])"
  have lD: "\<And>i. i < n \<Longrightarrow> length (?D i) = HASH_LENGTH" using assms(1) by simp
  have len: "length ?bytes = n * HASH_LENGTH" using lD by (rule length_concat_blocks)
  have "absorb (newCurl 27) ?bytes 0 (n * HASH_LENGTH)
        = fold (\<lambda>i c. absorbChunk c (slice ?bytes (0 + i * HASH_LENGTH) (0 + (i + 1) * HASH_LENGTH)))
             [0..<n] (newCurl 27)"
    using assms(2) len by (intro absorb_blocks) simp_all
  also have "\<dots> = fold (\<lambda>i c. absorbChunk c (?D i)) [0..<n] (newCurl 27)"
  proof (rule fold_cong)
    fix i assume "i \<in> set [0..<n]"
    then have "i < n" by simp
    with lD have "slice ?bytes (i * HASH_LENGTH) ((i + 1) * HASH_LENGTH) = ?D i"
      by (rule slice_concat_blocks)
    then show "(\<lambda>c. absorbChunk c (slice ?bytes (0 + i * HASH_LENGTH) (0 + (i + 1) * HASH_LENGTH)))
               = (\<lambda>c. absorbChunk c (?D i))"
      by (simp only: add_0)
  qed simp_all
  finally have ab: "absorb (newCurl 27) ?bytes 0 (n * HASH_LENGTH)
        = fold (\<lambda>i c. absorbChunk c (?D i)) [0..<n] (newCurl 27)" .
  have "digestFromSignature h (concat (map B [0..<n]))
        = Some (rate (absorb (reset (newCurl 27)) ?bytes 0 (length ?bytes)) HASH_LENGTH)"
    unfolding digestFromSignature_def Let_def
    by (subst chain_blocks [OF assms(1)]) simp_all
  then show ?thesis by (simp add: len ab rate_def slice_def)
qed


lemma absorb_full_chunk:
  "length chunk = HASH_LENGTH \<Longrightarrow> absorb c chunk 0 HASH_LENGTH = absorbChunk c chunk"
  using absorb_whole_chunk [of chunk c] by simp

lemma rounds_squeeze [simp]: "rounds (snd (squeeze c ts off len)) = rounds c"
proof (induction c ts off len rule: squeeze.induct)
  case (1 c ts offset len)
  show ?case
    by (subst squeeze.simps) (simp add: Let_def 1)
qed

lemma digestRound_hashBlock:
  assumes "rounds c2 = 27" "length d = HASH_LENGTH"
  shows "snd (digestRound (c2, d)) = hashBlock d \<and> rounds (fst (digestRound (c2, d))) = 27"
proof -
  have ab: "absorb (reset c2) d 0 (length d) = absorbChunk (newCurl 27) d"
    using assms by (simp add: reset_newCurl absorb_full_chunk)
  have "HASH_LENGTH \<le> length (state (absorbChunk (newCurl 27) d))"
    using assms(2) by (simp add: absorbChunk_def STATE_LENGTH_eq)
  then have sq: "squeeze (absorbChunk (newCurl 27) d) d 0 (length d)
           = (take HASH_LENGTH (state (absorbChunk (newCurl 27) d)), transform (absorbChunk (newCurl 27) d))"
    using assms(2) by (intro squeeze_block) simp_all
  show ?thesis
    unfolding digestRound_def prod.case Let_def ab sq by (simp add: hashBlock_def)
qed

lemma digestRounds:
  assumes "rounds c2 = 27" "length d = HASH_LENGTH"
  shows "snd ((digestRound ^^ k) (c2, d)) = (hashBlock ^^ k) d
         \<and> rounds (fst ((digestRound ^^ k) (c2, d))) = 27"
proof (induction k)
  case 0
  then show ?case using assms by simp
next
  case (Suc k)
  obtain c' d' where st: "(digestRound ^^ k) (c2, d) = (c', d')" by (cases "(digestRound ^^ k) (c2, d)")
  with Suc have "d' = (hashBlock ^^ k) d" "rounds c' = 27" by simp_all
  moreover from this have "length d' = HASH_LENGTH" using assms(2) by simp
  ultimately show ?case using digestRound_hashBlock [of c' d'] by (simp add: st)
qed

lemma digestFragment_step:
  assumes "rounds c2 = 27" "length d = HASH_LENGTH" "HASH_LENGTH \<le> length (state c1)"
  shows "\<exists>c2'. rounds c2' = 27 \<and>
           digestFragment (c1, c2, c3, d)
           = (transform c1, c2', absorbChunk c3 ((hashBlock ^^ 27) (take HASH_LENGTH (state c1))),
              (hashBlock ^^ 27) (take HASH_LENGTH (state c1)))"
proof -
  let ?d1 = "take HASH_LENGTH (state c1)"
  have sq: "squeeze c1 d 0 (length d) = (?d1, transform c1)"
    using assms by (intro squeeze_block) simp_all
  have l1: "length ?d1 = HASH_LENGTH" using assms(3) by simp
  obtain c' d' where st: "(digestRound ^^ 27) (c2, ?d1) = (c', d')"
    by (cases "(digestRound ^^ 27) (c2, ?d1)")
  with digestRounds [OF assms(1) l1, of 27] have d': "d' = (hashBlock ^^ 27) ?d1" and c': "rounds c' = 27"
    by simp_all
  have twentyseven: "nat (MAX_TRYTE_VALUE - MIN_TRYTE_VALUE + 1) = 27"
    by (simp add: MAX_TRYTE_VALUE_def MIN_TRYTE_VALUE_def)
  have ld': "length d' = HASH_LENGTH" using d' l1 by simp
  have "digestFragment (c1, c2, c3, d) = (transform c1, c', absorbChunk c3 d', d')"
    unfolding digestFragment_def prod.case sq Let_def twentyseven fold_const_funpow st
    using ld' by (simp add: absorb_full_chunk)
  then show ?thesis using c' d' by blast
qed

lemma digestFragments:
  assumes "rounds c2 = 27" "length d = HASH_LENGTH"
  shows "\<exists>c2' d'. rounds c2' = 27 \<and> length d' = HASH_LENGTH \<and>
           fold (\<lambda>i. digestFragment) [0..<m] (subseedSponge ss, c2, c3, d)
           = ((transform ^^ m) (subseedSponge ss), c2',
              fold (\<lambda>i c. absorbChunk c (digestBlock ss i)) [0..<m] c3, d')"
proof (induction m)
  case 0
  then show ?case using assms by simp
next
  case (Suc m)
  then obtain c2' d' where c2': "rounds c2' = 27" and d': "length d' = HASH_LENGTH"
    and st: "fold (\<lambda>i. digestFragment) [0..<m] (subseedSponge ss, c2, c3, d)
           = ((transform ^^ m) (subseedSponge ss), c2',
              fold (\<lambda>i c. absorbChunk c (digestBlock ss i)) [0..<m] c3, d')" by blast
  have "HASH_LENGTH \<le> length (state ((transform ^^ m) (subseedSponge ss)))"
    by (simp add: STATE_LENGTH_eq)
  from digestFragment_step [OF c2' d' this]
  obtain c2'' where c2'': "rounds c2'' = 27"
    and step: "digestFragment ((transform ^^ m) (subseedSponge ss), c2',
                 fold (\<lambda>i c. absorbChunk c (digestBlock ss i)) [0..<m] c3, d')
           = (transform ((transform ^^ m) (subseedSponge ss)), c2'',
              absorbChunk (fold (\<lambda>i c. absorbChunk c (digestBlock ss i)) [0..<m] c3)
                ((hashBlock ^^ 27) (take HASH_LENGTH (state ((transform ^^ m) (subseedSponge ss))))),
              (hashBlock ^^ 27) (take HASH_LENGTH (state ((transform ^^ m) (subseedSponge ss)))))"
    by blast
  have db: "(hashBlock ^^ 27) (take HASH_LENGTH (state ((transform ^^ m) (subseedSponge ss))))
            = digestBlock ss m"
    by (simp add: digestBlock_def squeezed_def)
  show ?case
    apply (rule exI [where x = c2''])
    apply (rule exI [where x = "digestBlock ss m"])
    using c2'' by (simp add: st step db)
qed

lemma digestFromSubseed_blocks:
  "digestFromSubseed ss L
   = take HASH_LENGTH (state (fold (\<lambda>i c. absorbChunk c (digestBlock ss i)) [0..<27 * L] (newCurl 27)))"
proof -
  have n: "L * PRIVATE_KEY_FRAGMENT_LENGTH div HASH_LENGTH = 27 * L"
    by (simp add: fragments)
  obtain c2' d' where d': "length d' = HASH_LENGTH"
    and st: "fold (\<lambda>i. digestFragment) [0..<27 * L]
               (subseedSponge ss, newCurl 27, newCurl 27, replicate HASH_LENGTH 0)
           = ((transform ^^ (27 * L)) (subseedSponge ss), c2',
              fold (\<lambda>i c. absorbChunk c (digestBlock ss i)) [0..<27 * L] (newCurl 27), d')"
    using digestFragments [of "newCurl 27" "replicate HASH_LENGTH 0" "27 * L" ss "newCurl 27"]
    by auto
  let ?c3 = "fold (\<lambda>i c. absorbChunk c (digestBlock ss i)) [0..<27 * L] (newCurl 27)"
  have "length (state (fold (\<lambda>i c. absorbChunk c (digestBlock ss i)) [0..<m] (newCurl 27))) = STATE_LENGTH" for m
    by (induction m) (simp_all add: length_absorbChunk STATE_LENGTH_eq)
  then have "HASH_LENGTH \<le> length (state ?c3)" by (simp add: STATE_LENGTH_eq)
  then have "squeeze ?c3 d' 0 (length d') = (take HASH_LENGTH (state ?c3), transform ?c3)"
    using d' by (intro squeeze_block) simp_all
  then show ?thesis
    unfolding digestFromSubseed_def Let_def n subseedSponge_def [symmetric] st prod.case
    by simp
qed

text \<open>
  C3.  For a hash of 243 trits whose tryte values lie between -13 and 13, a subseed and a
  security level of 1, 2 or 3: signing the hash with the private key of the subseed gives
  a signature, and the digest recovered from the hash and that signature is the digest of
  the subseed.
\<close>

theorem digestFromSignature_signature:
  assumes "length h = 243"
    and "\<forall>i<81. MIN_TRYTE_VALUE \<le> tryteValue h i \<and> tryteValue h i \<le> MAX_TRYTE_VALUE"
    and "L \<in> {1, 2, 3}"
  shows "Option.bind (signature h (privateKeyFromSubseed ss L)) (digestFromSignature h)
         = Some (digestFromSubseed ss L)"
proof -
  let ?n = "27 * L"
  from assms(3) have L: "0 < L" and n: "?n \<le> 81" "0 < ?n" by auto
  let ?c = "\<lambda>i. case tryteAt h i of None \<Rightarrow> 0 | Some tv \<Rightarrow> nat (MAX_TRYTE_VALUE - tv)"
  let ?c' = "\<lambda>i. case tryteAt h i of None \<Rightarrow> 0 | Some tv \<Rightarrow> nat (tv - MIN_TRYTE_VALUE)"
  let ?S = "\<lambda>i. (hashBlock ^^ ?c i) (keyBlock ss i)"
  have sig: "signature h (privateKeyFromSubseed ss L) = Some (concat (map ?S [0..<?n]))"
    unfolding privateKeyFromSubseed_blocks [OF L] using assms(1) n(1) by (rule signature_blocks)
  have total: "(hashBlock ^^ ?c' i) (?S i) = digestBlock ss i" if "i < ?n" for i
  proof -
    from that n have i: "i < 81" by simp
    with assms(1) have t: "tryteAt h i = Some (tryteValue h i)"
      by (simp add: tryteAt_Some tryteValue_def)
    from assms(2) i have "MIN_TRYTE_VALUE \<le> tryteValue h i" "tryteValue h i \<le> MAX_TRYTE_VALUE"
      by simp_all
    then have "?c' i + ?c i = 26"
      by (simp add: t MIN_TRYTE_VALUE_def MAX_TRYTE_VALUE_def)
    then have "(hashBlock ^^ ?c' i) (?S i) = (hashBlock ^^ 26) (keyBlock ss i)"
      by (metis funpow_add comp_apply)
    also have "\<dots> = (hashBlock ^^ Suc 26) (squeezed (subseedSponge ss) i)"
      by (simp only: keyBlock_def funpow_Suc_right comp_apply)
    also have "\<dots> = digestBlock ss i"
      by (simp add: digestBlock_def)
    finally show ?thesis .
  qed
  have "digestFromSignature h (concat (map ?S [0..<?n]))
        = Some (take HASH_LENGTH (state (fold (\<lambda>i c. absorbChunk c ((hashBlock ^^ ?c' i) (?S i)))
                  [0..<?n] (newCurl 27))))"
    using n(2) by (intro digestFromSignature_blocks) (simp_all add: length_keyBlock)
  also have "fold (\<lambda>i c. absorbChunk c ((hashBlock ^^ ?c' i) (?S i))) [0..<?n] (newCurl 27)
             = fold (\<lambda>i c. absorbChunk c (digestBlock ss i)) [0..<?n] (newCurl 27)"
    by (rule fold_cong) (simp_all add: total)
  finally show ?thesis by (simp add: sig digestFromSubseed_blocks)
qed

theorem digestFromSignature_signature_witness:
  "length (replicate 243 (0::int)) = 243
   \<and> Option.bind (signature (replicate 243 0) (privateKeyFromSubseed (replicate 243 0) 1))
        (digestFromSignature (replicate 243 0))
      = Some (digestFromSubseed (replicate 243 0) 1)"
proof -
  have a: "length (replicate 243 (0::int)) = 243" by simp
  have b: "\<forall>i<81. MIN_TRYTE_VALUE \<le> tryteValue (replicate 243 0) i
                 \<and> tryteValue (replicate 243 0) i \<le> MAX_TRYTE_VALUE"
    by (simp add: tryteValue_def MIN_TRYTE_VALUE_def MAX_TRYTE_VALUE_def)
  have c: "(1::nat) \<in> {1, 2, 3}" by simp
  from a digestFromSignature_signature [OF a b c] show ?thesis by simp
qed

section \<open>The bit-sliced transform and the search of the nonce\<close>

lemma laneRel_nth:
  "laneRel l s st \<Longrightarrow> k < STATE_LENGTH \<Longrightarrow> enc (st ! k) (bit (low s ! k) l) (bit (high s ! k) l)"
  by (simp add: laneRel_def list_all_iff)

lemma laneRelI:
  assumes "length (low s) = STATE_LENGTH" "length (high s) = STATE_LENGTH" "length st = STATE_LENGTH"
    and "\<And>k. k < STATE_LENGTH \<Longrightarrow> enc (st ! k) (bit (low s ! k) l) (bit (high s ! k) l)"
  shows "laneRel l s st"
  using assms by (simp add: laneRel_def list_all_iff)

lemma bit_bitWiseNot:
  assumes "l < 64"
  shows "bit (bitWiseNot v) l = (\<not> bit v l)"
proof -
  have "bitWiseNot v = 2 ^ 64 + not v"
    by (simp add: bitWiseNot_def not_int_def)
  then have "take_bit 64 (bitWiseNot v) = take_bit 64 (not v)"
    by (simp add: take_bit_eq_mod)
  then have "bit (take_bit 64 (bitWiseNot v)) l = bit (take_bit 64 (not v)) l" by simp
  with assms show ?thesis by (simp add: bit_take_bit_iff bit_not_iff)
qed

lemma enc_step:
  assumes l: "l < 64"
    and a: "enc a (bit alpha l) (bit beta l)"
    and b: "enc b (bit lowq l) (bit gamma l)"
  shows "enc (truthTable (a + 4 * b + 5))
           (bit (bitWiseNot (and (or alpha (bitWiseNot gamma)) (xor lowq beta))) l)
           (bit (or (xor alpha gamma) (and (or alpha (bitWiseNot gamma)) (xor lowq beta))) l)"
  using a b
  by (auto simp: enc_def bit_bitWiseNot [OF l] bit_and_iff bit_or_iff bit_xor_iff
        truthTable_def TRUTH_TABLE_def)


lemma fold_lockstep:
  assumes "R s t" and "\<And>x s t. x \<in> set xs \<Longrightarrow> R s t \<Longrightarrow> R (f x s) (g x t)"
  shows "R (fold f xs s) (fold g xs t)"
  using assms by (induction xs arbitrary: s t) auto

lemma funpow_lockstep:
  assumes "R s t" and "\<And>s t. R s t \<Longrightarrow> R (f s) (g t)"
  shows "R ((f ^^ n) s) ((g ^^ n) t)"
  using assms by (induction n) auto

lemma hdTransformStep_scanRel:
  assumes l: "l < 64" and sp: "laneRel l sp cp" and x: "x < STATE_LENGTH"
    and R: "scanRel l p q"
  shows "scanRel l (hdTransformStep sp x p) (transformStep cp x q)"
proof -
  obtain s i where p: "p = (s, i)" by (cases p)
  obtain st j where q: "q = (st, j)" by (cases q)
  from R p q have ij: "j = i" and i: "i < STATE_LENGTH" and rel: "laneRel l s st"
    by (simp_all add: scanRel_def)
  let ?i' = "if i < 365 then i + 364 else i - 365"
  have i': "?i' < STATE_LENGTH" using i by (auto simp: STATE_LENGTH_def HASH_LENGTH_def)
  let ?alpha = "low sp ! i" and ?beta = "high sp ! i"
  let ?gamma = "high sp ! ?i'" and ?lowq = "low sp ! ?i'"
  let ?delta = "and (or ?alpha (bitWiseNot ?gamma)) (xor ?lowq ?beta)"
  let ?s' = "s\<lparr>low := (low s)[x := bitWiseNot ?delta],
               high := (high s)[x := or (xor ?alpha ?gamma) ?delta]\<rparr>"
  let ?v = "truthTable (cp ! i + 4 * (cp ! ?i') + 5)"
  have new: "enc ?v (bit (bitWiseNot ?delta) l) (bit (or (xor ?alpha ?gamma) ?delta) l)"
    using l laneRel_nth [OF sp i] laneRel_nth [OF sp i'] by (rule enc_step)
  have len: "length (low s) = STATE_LENGTH" "length (high s) = STATE_LENGTH" "length st = STATE_LENGTH"
    using rel by (simp_all add: laneRel_def)
  have "laneRel l ?s' (st[x := ?v])"
  proof (rule laneRelI)
    fix k assume k: "k < STATE_LENGTH"
    show "enc (st[x := ?v] ! k) (bit (low ?s' ! k) l) (bit (high ?s' ! k) l)"
    proof (cases "k = x")
      case True
      then show ?thesis using new len x by simp
    next
      case False
      then show ?thesis using laneRel_nth [OF rel k] by simp
    qed
  qed (simp_all add: len)
  then show ?thesis
    unfolding p q ij hdTransformStep_def transformStep_def prod.case Let_def
    using i' by (simp add: scanRel_def)
qed

lemma hdTransformRound_scanRel:
  assumes l: "l < 64" and R: "scanRel l p q"
  shows "scanRel l (hdTransformRound p) (transformRound q)"
proof -
  obtain s i where p: "p = (s, i)" by (cases p)
  obtain st j where q: "q = (st, j)" by (cases q)
  from R p q have rel: "laneRel l s st" by (simp add: scanRel_def)
  then have len: "length (low s) = STATE_LENGTH" "length (high s) = STATE_LENGTH"
    by (simp_all add: laneRel_def)
  let ?sp = "\<lparr>low = slice (low s) 0 STATE_LENGTH, high = slice (high s) 0 STATE_LENGTH\<rparr>"
  have sp: "laneRel l ?sp st"
    using rel len by (simp add: laneRel_def slice_def)
  have "scanRel l (fold (hdTransformStep ?sp) [0..<STATE_LENGTH] (s, i))
                  (fold (transformStep st) [0..<STATE_LENGTH] (st, j))"
    using R p q
    by (intro fold_lockstep [where R = "scanRel l"] hdTransformStep_scanRel [OF l sp]) simp_all
  then show ?thesis by (simp add: p q hdTransformRound_def transformRound_def Let_def)
qed

lemma hdTransform_laneRel:
  assumes "l < 64" "laneRel l s st"
  shows "laneRel l (hdTransform s) (state (transform \<lparr>state = st, rounds = 27\<rparr>))"
proof -
  have "scanRel l (s, 0) (st, 0)"
    using assms(2) by (simp add: scanRel_def STATE_LENGTH_def HASH_LENGTH_def)
  then have "scanRel l ((hdTransformRound ^^ 27) (s, 0)) ((transformRound ^^ 27) (st, 0))"
    by (rule funpow_lockstep) (rule hdTransformRound_scanRel [OF assms(1)])
  then show ?thesis
    by (simp add: hdTransform_def transform_def ROUNDS_def scanRel_def split_beta)
qed

lemma trinaryGet_lane:
  assumes "laneRel l s st" "n \<le> STATE_LENGTH"
  shows "trinaryGet (low s) (high s) n l = take n st"
proof (rule nth_equalityI)
  show "length (trinaryGet (low s) (high s) n l) = length (take n st)"
    using assms by (simp add: trinaryGet_def laneRel_def)
next
  fix k assume "k < length (trinaryGet (low s) (high s) n l)"
  then have k: "k < n" by (simp add: trinaryGet_def)
  then have "k < STATE_LENGTH" using assms(2) by simp
  from laneRel_nth [OF assms(1) this]
  have e: "enc (st ! k) (bit (low s ! k) l) (bit (high s ! k) l)" .
  have b: "and (drop_bit l v) 1 = (if bit v l then 1 else 0)" for v :: int
    by (simp add: and_one_eq bit_iff_odd_drop_bit mod_2_eq_odd)
  show "trinaryGet (low s) (high s) n l ! k = take n st ! k"
    using k e by (auto simp: trinaryGet_def b enc_def Let_def)
qed

lemma bit_MAX_VALUE:
  assumes "l < 64"
  shows "bit MAX_VALUE l"
proof -
  have h: "MAX_VALUE = Bit_Operations.mask 64" by (simp add: MAX_VALUE_def mask_eq_exp_minus_1)
  have "bit (Bit_Operations.mask 64 :: int) l" using assms by (simp only: bit_mask_iff) simp
  then show ?thesis by (simp only: h)
qed

lemma bit_MIN_VALUE [simp]: "\<not> bit MIN_VALUE l"
  by (simp add: MIN_VALUE_def)

lemma tritsToBigInt_laneRel:
  assumes "l < 64" "length st = STATE_LENGTH" "isTrits st"
  shows "laneRel l (tritsToBigInt st STATE_LENGTH) st"
proof (rule laneRelI)
  fix k assume k: "k < STATE_LENGTH"
  then have "isTrit (st ! k)" using assms(2,3) by (simp add: isTrits_nth)
  then show "enc (st ! k) (bit (low (tritsToBigInt st STATE_LENGTH) ! k) l)
                (bit (high (tritsToBigInt st STATE_LENGTH) ! k) l)"
    using k assms(1,2) by (auto simp: tritsToBigInt_def enc_def isTrit_def bit_MAX_VALUE)
qed (simp_all add: tritsToBigInt_def assms(2))

text \<open>
  C8.  For a state of 729 trits and a lane below 64: encode the state with
  \<open>tritsToBigInt\<close>, apply the transform of the HammingDiver and read the lane with
  \<open>trinaryGet\<close>; the result is the state that the Curl transform of 27 rounds makes of
  the trits.
\<close>

theorem hdTransform_lane:
  assumes "length st = STATE_LENGTH" "isTrits st" "l < 64"
  shows "trinaryGet (low (hdTransform (tritsToBigInt st STATE_LENGTH)))
                    (high (hdTransform (tritsToBigInt st STATE_LENGTH))) STATE_LENGTH l
         = state (transform \<lparr>state = st, rounds = 27\<rparr>)"
proof -
  have "laneRel l (hdTransform (tritsToBigInt st STATE_LENGTH))
                  (state (transform \<lparr>state = st, rounds = 27\<rparr>))"
    using assms by (intro hdTransform_laneRel tritsToBigInt_laneRel)
  then have "trinaryGet (low (hdTransform (tritsToBigInt st STATE_LENGTH)))
                    (high (hdTransform (tritsToBigInt st STATE_LENGTH))) STATE_LENGTH l
         = take STATE_LENGTH (state (transform \<lparr>state = st, rounds = 27\<rparr>))"
    by (rule trinaryGet_lane) simp
  then show ?thesis using assms(1) by simp
qed

theorem hdTransform_lane_witness:
  "length (replicate 729 (0::int)) = STATE_LENGTH \<and> isTrits (replicate 729 0) \<and> (5::nat) < 64
   \<and> trinaryGet (low (hdTransform (tritsToBigInt (replicate 729 0) STATE_LENGTH)))
                 (high (hdTransform (tritsToBigInt (replicate 729 0) STATE_LENGTH))) STATE_LENGTH 5
      = state (transform \<lparr>state = replicate 729 0, rounds = 27\<rparr>)"
proof -
  have a: "length (replicate 729 (0::int)) = STATE_LENGTH"
    by (simp add: STATE_LENGTH_def HASH_LENGTH_def)
  have b: "isTrits (replicate 729 0)" by simp
  have c: "(5::nat) < 64" by simp
  from a b c hdTransform_lane [OF a b c] show ?thesis by simp
qed


lemma checkThirds_laneStep:
  "checkThirds sec lo hi i j s0 =
     (if j < sec then
        if fold (laneStep lo hi i) [j * 81..<(j + 1) * 81] s0 = 0 \<and> j + 1 < sec then 1
        else checkThirds sec lo hi i (j + 1) (fold (laneStep lo hi i) [j * 81..<(j + 1) * 81] s0)
      else s0)"
proof -
  have f: "(\<lambda>k s. if and (lo ! k) (push_bit i 1) = 0 then s - 1
                  else if and (hi ! k) (push_bit i 1) = 0 then s + 1 else s)
           = laneStep lo hi i"
    by (simp add: fun_eq_iff laneStep_def and_exp_eq_0_iff_not_bit)
  have d: "j * 243 div 3 = j * 81" "(j + 1) * 243 div 3 = (j + 1) * 81" by simp_all
  show ?thesis
    by (subst checkThirds.simps) (simp only: Let_def d f)
qed

lemma laneStep_enc:
  assumes "enc t (bit (lo ! k) i) (bit (hi ! k) i)"
  shows "laneStep lo hi i k s = s - t"
  using assms by (auto simp: laneStep_def enc_def)

lemma lane_sum_fold:
  assumes rel: "laneRel i T tr" and b: "b \<le> STATE_LENGTH"
  shows "fold (laneStep (low T) (high T) i) [a..<b] s0 = s0 - sum_list (map (nth tr) [a..<b])"
  using b
proof (induction b)
  case 0
  then show ?case by simp
next
  case (Suc b)
  show ?case
  proof (cases "a \<le> b")
    case True
    have "b < STATE_LENGTH" using Suc.prems by simp
    from laneRel_nth [OF rel this]
    have "enc (tr ! b) (bit (low T ! b) i) (bit (high T ! b) i)" .
    then have step: "laneStep (low T) (high T) i b s = s - tr ! b" for s
      by (rule laneStep_enc)
    show ?thesis using True Suc by (simp add: step)
  next
    case False
    then show ?thesis by simp
  qed
qed

lemma sum_list_nth_upt:
  assumes "b \<le> length xs"
  shows "sum_list (map (nth xs) [0..<b]) = sum_list (take b xs)"
proof -
  have "map (nth xs) [0..<b] = take b xs"
    using assms by (intro nth_equalityI) simp_all
  then show ?thesis by simp
qed

lemma sum_list_nth_range:
  fixes xs :: "int list"
  assumes "a \<le> b" "b \<le> length xs"
  shows "sum_list (map (nth xs) [a..<b]) = sum_list (take b xs) - sum_list (take a xs)"
proof -
  have "[0..<b] = [0..<a] @ [a..<b]"
    using assms(1) by (metis le0 upt_add_eq_append le_Suc_ex)
  then have "sum_list (map (nth xs) [0..<b])
             = sum_list (map (nth xs) [0..<a]) + sum_list (map (nth xs) [a..<b])"
    by simp
  then show ?thesis using assms by (simp add: sum_list_nth_upt)
qed

lemma checksumSecurity_thirds:
  "length h = 243 \<Longrightarrow> checksumSecurity h =
           (if thirdSum h 1 = 0 then 1
            else if thirdSum h 2 = 0 then 2
            else if thirdSum h 3 = 0 then 3 else 0)"
  by (simp add: checksumSecurity_def sumLoop_sum_list slice_def HASH_LENGTH_def Let_def thirdSum_def)

text \<open>When the sum of \<open>check\<close> for a lane is 0, the security of the rate in that lane is
  the level asked for.\<close>

lemma checkThirds_checksumSecurity:
  assumes rel: "laneRel i T tr" and sec: "sec \<in> {1, 2, 3}"
    and zero: "checkThirds sec (low T) (high T) i 0 0 = 0"
  shows "checksumSecurity (take HASH_LENGTH tr) = sec"
proof -
  have len: "length tr = 729" using rel by (simp add: laneRel_def STATE_LENGTH_def HASH_LENGTH_def)
  have thirdJ: "fold (laneStep (low T) (high T) i) [j * 81..<(j + 1) * 81] s0
         = s0 - (thirdSum tr (j + 1) - thirdSum tr j)" if "j < 3" for j s0
  proof -
    have "j * 81 \<le> (j + 1) * 81" "(j + 1) * 81 \<le> length tr" "(j + 1) * 81 \<le> STATE_LENGTH"
      using that len by (simp_all add: STATE_LENGTH_def HASH_LENGTH_def)
    then show ?thesis
      unfolding thirdSum_def lane_sum_fold [OF rel \<open>(j + 1) * 81 \<le> STATE_LENGTH\<close>]
      by (simp only: sum_list_nth_range)
  qed
  have z: "thirdSum tr 0 = 0" by (simp add: thirdSum_def)
  have th: "thirdSum (take HASH_LENGTH tr) 1 = thirdSum tr 1"
    "thirdSum (take HASH_LENGTH tr) 2 = thirdSum tr 2"
    "thirdSum (take HASH_LENGTH tr) 3 = thirdSum tr 3"
    by (simp_all add: thirdSum_def HASH_LENGTH_def min_def)
  have "length (take HASH_LENGTH tr) = 243" using len by (simp add: HASH_LENGTH_def)
  from checksumSecurity_thirds [OF this]
  have cs: "checksumSecurity (take HASH_LENGTH tr) =
           (if thirdSum tr 1 = 0 then 1
            else if thirdSum tr 2 = 0 then 2
            else if thirdSum tr 3 = 0 then 3 else 0)"
    unfolding th .
  have l0: "(0::nat) < 3" and l1: "(1::nat) < 3" and l2: "(2::nat) < 3" by simp_all
  note f0 = thirdJ [OF l0] and f1 = thirdJ [OF l1] and f2 = thirdJ [OF l2]
  have c2: "checkThirds sec (low T) (high T) i 2 s =
     (if 2 < sec then s - (thirdSum tr 3 - thirdSum tr 2) else s)" for s
  proof -
    have "checkThirds sec (low T) (high T) i (2 + 1) s' = s'" for s'
      using sec by (subst checkThirds_laneStep) auto
    then show ?thesis
      using sec by (subst checkThirds_laneStep)
        (simp only: f2, auto simp: numeral_2_eq_2 [symmetric] numeral_3_eq_3 [symmetric])
  qed
  have c1: "checkThirds sec (low T) (high T) i 1 s =
     (if 1 < sec then
        if s - (thirdSum tr 2 - thirdSum tr 1) = 0 \<and> 2 < sec then 1
        else checkThirds sec (low T) (high T) i 2 (s - (thirdSum tr 2 - thirdSum tr 1))
      else s)" for s
    by (subst checkThirds_laneStep)
       (simp only: f1, simp add: numeral_2_eq_2 [symmetric] numeral_3_eq_3 [symmetric])
  have c0: "checkThirds sec (low T) (high T) i 0 0 =
     (if thirdSum tr 1 = 0 \<and> 1 < sec then 1
      else checkThirds sec (low T) (high T) i 1 (- thirdSum tr 1))"
    using sec by (subst checkThirds_laneStep)
      (simp only: f0, auto simp: z numeral_2_eq_2 [symmetric] numeral_3_eq_3 [symmetric])
  from sec consider "sec = 1" | "sec = 2" | "sec = 3" by auto
  then show ?thesis
  proof cases
    case 1
    from zero have "thirdSum tr 1 = 0"
      unfolding c0 c1 c2 using 1 by (simp split: if_splits)
    then show ?thesis using 1 by (simp add: cs)
  next
    case 2
    from zero have "thirdSum tr 1 \<noteq> 0 \<and> thirdSum tr 2 = 0"
      unfolding c0 c1 c2 using 2 by (simp split: if_splits)
    then show ?thesis using 2 by (simp add: cs)
  next
    case 3
    from zero have "thirdSum tr 1 \<noteq> 0 \<and> thirdSum tr 2 \<noteq> 0 \<and> thirdSum tr 3 = 0"
      unfolding c0 c1 c2 using 3 by (simp split: if_splits)
    then show ?thesis using 3 by (simp add: cs)
  qed
qed


lemma or_LOW_HIGH:
  "or LOW_0 HIGH_0 = MAX_VALUE" "or LOW_1 HIGH_1 = MAX_VALUE"
  "or LOW_2 HIGH_2 = MAX_VALUE" "or LOW_3 HIGH_3 = MAX_VALUE"
  by (simp_all add: LOW_0_def HIGH_0_def LOW_1_def HIGH_1_def LOW_2_def HIGH_2_def
        LOW_3_def HIGH_3_def MAX_VALUE_def)



lemma enc_dec: "a \<or> b \<Longrightarrow> enc (dec a b) a b"
  by (auto simp: enc_def dec_def)

lemma bit_LOW_HIGH:
  assumes "l < 64"
  shows "bit LOW_0 l \<or> bit HIGH_0 l" "bit LOW_1 l \<or> bit HIGH_1 l"
    "bit LOW_2 l \<or> bit HIGH_2 l" "bit LOW_3 l \<or> bit HIGH_3 l"
proof -
  note m = bit_MAX_VALUE [OF assms]
  show "bit LOW_0 l \<or> bit HIGH_0 l" using m unfolding or_LOW_HIGH(1) [symmetric] bit_or_iff .
  show "bit LOW_1 l \<or> bit HIGH_1 l" using m unfolding or_LOW_HIGH(2) [symmetric] bit_or_iff .
  show "bit LOW_2 l \<or> bit HIGH_2 l" using m unfolding or_LOW_HIGH(3) [symmetric] bit_or_iff .
  show "bit LOW_3 l \<or> bit HIGH_3 l" using m unfolding or_LOW_HIGH(4) [symmetric] bit_or_iff .
qed

lemma prepareTrits_lanesHold:
  assumes "length st0 = STATE_LENGTH" "isTrits st0" "4 \<le> n"
  shows "lanesHold st0 (prepareTrits st0 0) n"
  unfolding lanesHold_def
proof (intro allI impI)
  fix l :: nat assume l: "l < 64"
  let ?s = "prepareTrits st0 0"
  let ?lane = "st0[0 := dec (bit LOW_0 l) (bit HIGH_0 l), 1 := dec (bit LOW_1 l) (bit HIGH_1 l),
                   2 := dec (bit LOW_2 l) (bit HIGH_2 l), 3 := dec (bit LOW_3 l) (bit HIGH_3 l)]"
  have init: "laneRel l (tritsToBigInt st0 STATE_LENGTH) st0"
    using l assms(1,2) by (rule tritsToBigInt_laneRel)
  have len: "length (low (tritsToBigInt st0 STATE_LENGTH)) = 729"
       "length (high (tritsToBigInt st0 STATE_LENGTH)) = 729" "length st0 = 729"
    using init by (simp_all add: laneRel_def STATE_LENGTH_def HASH_LENGTH_def)
  have "laneRel l ?s ?lane"
  proof (rule laneRelI)
    fix k assume k: "k < STATE_LENGTH"
    consider "k = 0" | "k = 1" | "k = 2" | "k = 3" | "4 \<le> k" by linarith
    then show "enc (?lane ! k) (bit (low ?s ! k) l) (bit (high ?s ! k) l)"
    proof cases
      case 5
      then show ?thesis
        using laneRel_nth [OF init k] by (simp add: prepareTrits_def Let_def)
    qed (simp_all add: prepareTrits_def Let_def len enc_dec bit_LOW_HIGH [OF l]
           numeral_2_eq_2 numeral_3_eq_3)
  qed (use init assms(1) in \<open>simp_all add: prepareTrits_def Let_def laneRel_def\<close>)
  moreover have "drop n ?lane = drop n st0"
    using assms(3) by (simp add: drop_update_cancel)
  ultimately show "\<exists>lane. laneRel l ?s lane \<and> drop n lane = drop n st0" by blast
qed

lemma enc_increment:
  assumes "enc t (bit lo l) (bit hi l)"
  shows "enc (if t = 0 then 1 else if t = 1 then -1 else 0) (bit (xor hi lo) l) (bit lo l)"
  using assms by (auto simp: enc_def bit_xor_iff)

lemma incrementFrom_laneRel:
  assumes "laneRel l s lane"
  shows "\<exists>lane'. laneRel l (fst (incrementFrom s i to)) lane' \<and> drop to lane' = drop to lane"
  using assms
proof (induction s i to arbitrary: lane rule: incrementFrom.induct)
  case (1 states i toIndex)
  show ?case
  proof (cases "i < toIndex")
    case False
    then show ?thesis using "1.prems" by (subst incrementFrom.simps) auto
  next
    case True
    let ?lo = "low states ! i" and ?hi = "high states ! i"
    let ?s' = "states\<lparr>low := (low states)[i := xor ?hi ?lo], high := (high states)[i := ?lo]\<rparr>"
    let ?t = "lane ! i"
    let ?lane1 = "lane[i := (if ?t = 0 then 1 else if ?t = 1 then -1 else 0)]"
    have len: "length (low states) = STATE_LENGTH" "length (high states) = STATE_LENGTH"
        "length lane = STATE_LENGTH"
      using "1.prems" by (simp_all add: laneRel_def)
    have rel1: "laneRel l ?s' ?lane1"
    proof (rule laneRelI)
      fix k assume k: "k < STATE_LENGTH"
      show "enc (?lane1 ! k) (bit (low ?s' ! k) l) (bit (high ?s' ! k) l)"
      proof (cases "k = i")
        case True
        have "enc (if lane ! k = 0 then 1 else if lane ! k = 1 then -1 else 0)
                (bit (xor (high states ! k) (low states ! k)) l) (bit (low states ! k) l)"
          by (rule enc_increment [OF laneRel_nth [OF "1.prems" k]])
        then show ?thesis using k len unfolding True by simp
      next
        case False
        then show ?thesis using laneRel_nth [OF "1.prems" k] by simp
      qed
    qed (simp_all add: len)
    have dr1: "drop toIndex ?lane1 = drop toIndex lane"
      using True by (simp add: drop_update_cancel)
    show ?thesis
    proof (cases "and ?hi (not ?lo) = 0")
      case stop: True
      then have "fst (incrementFrom states i toIndex) = ?s'"
        using True by (subst incrementFrom.simps) (simp add: Let_def)
      then show ?thesis using rel1 dr1 by auto
    next
      case go: False
      then have eq: "incrementFrom states i toIndex = incrementFrom ?s' (i + 1) toIndex"
        using True by (subst incrementFrom.simps) (simp add: Let_def)
      from "1.IH" [OF True refl refl refl go rel1]
      obtain lane' where "laneRel l (fst (incrementFrom ?s' (i + 1) toIndex)) lane'"
        and "drop toIndex lane' = drop toIndex ?lane1" by blast
      then show ?thesis using dr1 eq by auto
    qed
  qed
qed

lemma increment_lanesHold:
  assumes "lanesHold st0 s n" "to \<le> n"
  shows "lanesHold st0 (fst (increment s from to)) n"
  unfolding lanesHold_def
proof (intro allI impI)
  fix l :: nat assume "l < 64"
  with assms(1) obtain lane where lane: "laneRel l s lane" "drop n lane = drop n st0"
    by (auto simp: lanesHold_def)
  from incrementFrom_laneRel [OF lane(1), of "from" to]
  obtain lane' where l': "laneRel l (fst (incrementFrom s from to)) lane'"
    and d: "drop to lane' = drop to lane" by blast
  have "drop n lane' = drop (n - to) (drop to lane')" using assms(2) by simp
  also have "\<dots> = drop n lane" unfolding d using assms(2) by simp
  finally have "drop n lane' = drop n st0" using lane(2) by simp
  moreover have "fst (increment s from to) = fst (incrementFrom s from to)"
    by (simp add: increment_def split_beta)
  ultimately show "\<exists>lane. laneRel l (fst (increment s from to)) lane \<and> drop n lane = drop n st0"
    using l' by auto
qed

lemma increment_result:
  "snd (increment s from to) = to - from \<or> snd (increment s from to) = to - from + 1"
  by (simp add: increment_def split_beta)

lemma roundThird_ge: "n \<le> roundThird n"
  unfolding roundThird_def Let_def RADIX_def using mod_less_divisor [of 3 n] by auto


lemma lanesHold_mono: "lanesHold st0 s n \<Longrightarrow> n \<le> m \<Longrightarrow> lanesHold st0 s m"
  unfolding lanesHold_def
proof (intro allI impI)
  fix l :: nat
  assume h: "\<forall>l<64. \<exists>lane. laneRel l s lane \<and> drop n lane = drop n st0" and nm: "n \<le> m" and "l < 64"
  then obtain lane where lane: "laneRel l s lane" "drop n lane = drop n st0" by blast
  have "drop m lane = drop (m - n) (drop n lane)" using nm by simp
  also have "\<dots> = drop m st0" unfolding lane(2) using nm by simp
  finally show "\<exists>lane. laneRel l s lane \<and> drop m lane = drop m st0" using lane(1) by blast
qed

lemma check_nonzero:
  assumes "check sec lo hi \<noteq> 0"
  shows "check sec lo hi < 64 \<and> checkThirds sec lo hi (check sec lo hi) 0 0 = 0"
proof (cases "find (\<lambda>i. checkThirds sec lo hi i 0 0 = 0) [0..<64]")
  case None
  then show ?thesis using assms by (simp add: check_def)
next
  case (Some i)
  then have "i \<in> set [0..<64]" "checkThirds sec lo hi i 0 0 = 0"
    by (auto simp: find_Some_iff)
  moreover have "check sec lo hi = i" using Some by (simp add: check_def)
  ultimately show ?thesis by simp
qed

lemma search_found:
  assumes hold: "lanesHold st0 s n" and n: "n \<le> HASH_LENGTH"
    and len: "length st0 = STATE_LENGTH" and sec: "sec \<in> {1, 2, 3}"
    and found: "check sec (low (hdTransform \<lparr>low = slice (low s) 0 (length (low s)),
                                              high = slice (high s) 0 (length (high s))\<rparr>))
                          (high (hdTransform \<lparr>low = slice (low s) 0 (length (low s)),
                                               high = slice (high s) 0 (length (high s))\<rparr>)) = idx"
    and nz: "idx \<noteq> 0"
  shows "checksumSecurity (rate (absorb \<lparr>state = st0, rounds = 27\<rparr>
            (trinaryGet (low s) (high s) n idx) 0 (length (trinaryGet (low s) (high s) n idx)))
            HASH_LENGTH) = sec"
proof -
  have copy: "\<lparr>low = slice (low s) 0 (length (low s)), high = slice (high s) 0 (length (high s))\<rparr> = s"
    by (simp add: slice_def)
  let ?T = "hdTransform s"
  from found nz have i: "idx < 64" and zero: "checkThirds sec (low ?T) (high ?T) idx 0 0 = 0"
    using check_nonzero [of sec "low ?T" "high ?T"] unfolding copy by auto
  from hold i obtain lane where lane: "laneRel idx s lane" and tail: "drop n lane = drop n st0"
    by (auto simp: lanesHold_def)
  have llen: "length lane = STATE_LENGTH" using lane by (simp add: laneRel_def)
  have n729: "n \<le> STATE_LENGTH" using n by (simp add: STATE_LENGTH_def)
  let ?nonce = "trinaryGet (low s) (high s) n idx"
  have nonce: "?nonce = take n lane" using lane n729 by (rule trinaryGet_lane)
  have nlen: "length ?nonce = n" using llen n729 by (simp add: nonce)
  have "absorb \<lparr>state = st0, rounds = 27\<rparr> ?nonce 0 (length ?nonce)
        = absorbChunk \<lparr>state = st0, rounds = 27\<rparr> ?nonce"
    using n nlen by (intro absorb_whole_chunk) simp
  also have "\<dots> = transform \<lparr>state = take n lane @ drop n st0, rounds = 27\<rparr>"
    by (simp add: absorbChunk_def nlen) (simp add: nonce)
  also have "take n lane @ drop n st0 = lane" unfolding tail [symmetric] by simp
  finally have ab: "absorb \<lparr>state = st0, rounds = 27\<rparr> ?nonce 0 (length ?nonce)
        = transform \<lparr>state = lane, rounds = 27\<rparr>" .
  have "laneRel idx ?T (state (transform \<lparr>state = lane, rounds = 27\<rparr>))"
    using i lane by (rule hdTransform_laneRel)
  from checkThirds_checksumSecurity [OF this sec zero]
  show ?thesis by (simp add: ab rate_def slice_def)
qed

lemma searchLoop_checksumSecurity:
  assumes res: "searchLoop sec off s n = Some nonce"
    and "off = 0" "lanesHold st0 s n" "n \<le> HASH_LENGTH"
    and len: "length st0 = STATE_LENGTH" and sec: "sec \<in> {1, 2, 3}"
  shows "checksumSecurity (rate (absorb \<lparr>state = st0, rounds = 27\<rparr> nonce 0 (length nonce))
            HASH_LENGTH) = sec"
proof -
  let ?Q = "\<lambda>nonce. checksumSecurity (rate (absorb \<lparr>state = st0, rounds = 27\<rparr> nonce 0 (length nonce))
            HASH_LENGTH) = sec"
  have "off = 0 \<and> lanesHold st0 s n \<and> n \<le> HASH_LENGTH \<and> sec = sec \<longrightarrow> ?Q nonce"
  proof (rule searchLoop.raw_induct
      [where P = "\<lambda>sl off s n nonce. off = 0 \<and> lanesHold st0 s n \<and> n \<le> HASH_LENGTH \<and> sl = sec
                    \<longrightarrow> ?Q nonce", OF _ res])
    fix f :: "nat \<Rightarrow> nat \<Rightarrow> searchStates \<Rightarrow> nat \<Rightarrow> trits option"
      and securityLevel offset :: nat and st :: searchStates and size0 :: nat and y :: trits
    assume IH: "\<And>a b c d y. f a b c d = Some y \<Longrightarrow>
                  b = 0 \<and> lanesHold st0 c d \<and> d \<le> HASH_LENGTH \<and> a = sec \<longrightarrow> ?Q y"
    assume body: "(let (st', incrementResult) =
            increment st (offset + size0 * 2 div 3) (offset + size0);
          size' = min (roundThird (offset + size0 * 2 div 3 + incrementResult)) HASH_LENGTH - offset;
          curlCopy = hdTransform \<lparr>low = slice (low st') 0 (length (low st')),
                                  high = slice (high st') 0 (length (high st'))\<rparr>;
          idx = check securityLevel (low curlCopy) (high curlCopy)
      in if idx = 0 then f securityLevel offset st' size'
         else Some (trinaryGet (low st') (high st') size' idx)) = Some y"
    show "offset = 0 \<and> lanesHold st0 st size0 \<and> size0 \<le> HASH_LENGTH \<and> securityLevel = sec \<longrightarrow> ?Q y"
    proof (intro impI, elim conjE)
      assume off: "offset = 0" and hold: "lanesHold st0 st size0" and sz: "size0 \<le> HASH_LENGTH"
        and sl: "securityLevel = sec"
      let ?from = "size0 * 2 div 3"
      let ?st' = "fst (increment st ?from size0)"
      let ?r = "snd (increment st ?from size0)"
      let ?size' = "min (roundThird (?from + ?r)) HASH_LENGTH"
      let ?T = "hdTransform \<lparr>low = slice (low ?st') 0 (length (low ?st')),
                              high = slice (high ?st') 0 (length (high ?st'))\<rparr>"
      let ?idx = "check sec (low ?T) (high ?T)"
      have "size0 \<le> ?from + ?r" using increment_result [of st ?from size0] by auto
      also have "\<dots> \<le> roundThird (?from + ?r)" by (rule roundThird_ge)
      finally have ge: "size0 \<le> ?size'" using sz by simp
      have le: "?size' \<le> HASH_LENGTH" by simp
      have hold': "lanesHold st0 ?st' ?size'"
        using increment_lanesHold [OF hold order_refl] ge by (rule lanesHold_mono)
      from body [unfolded off sl]
      have body': "(if ?idx = 0 then f sec 0 ?st' ?size'
         else Some (trinaryGet (low ?st') (high ?st') ?size' ?idx)) = Some y"
        by (simp add: split_beta Let_def)
      show "?Q y"
      proof (cases "?idx = 0")
        case True
        with body' have "f sec 0 ?st' ?size' = Some y" by simp
        from IH [OF this] hold' le show ?thesis by simp
      next
        case False
        with body' have y: "y = trinaryGet (low ?st') (high ?st') ?size' ?idx" by simp
        show ?thesis unfolding y
          using hold' le len sec refl False by (rule search_found)
      qed
    qed
  qed
  then show ?thesis using assms by simp
qed

text \<open>
  C7.  For a state of 729 trits and a security level of 1, 2 or 3: whenever
  \<open>search\<close> returns a nonce, absorbing the nonce into a sponge of 27 rounds in the
  given state leaves a rate whose \<open>checksumSecurity\<close> is at least the level (it is
  the level: \<open>searchLoop_checksumSecurity\<close>).  The search has no result when no
  lane ever passes the check.
\<close>

theorem search_checksumSecurity:
  assumes "length st = STATE_LENGTH" "isTrits st" "sec \<in> {1, 2, 3}"
  shows "case search st sec 81 0 of
           None \<Rightarrow> True
         | Some nonce \<Rightarrow>
             sec \<le> checksumSecurity
                     (rate (absorb \<lparr>state = st, rounds = 27\<rparr> nonce 0 (length nonce)) HASH_LENGTH)"
proof (cases "search st sec 81 0")
  case None
  then show ?thesis by simp
next
  case (Some nonce)
  then have res: "searchLoop sec 0 (prepareTrits st 0) 81 = Some nonce"
    by (simp add: search_def HASH_LENGTH_def)
  have hold: "lanesHold st (prepareTrits st 0) 81"
    using assms(1,2) by (rule prepareTrits_lanesHold) simp
  have "checksumSecurity (rate (absorb \<lparr>state = st, rounds = 27\<rparr> nonce 0 (length nonce))
            HASH_LENGTH) = sec"
    using res refl hold _ assms(1,3) by (rule searchLoop_checksumSecurity) (simp add: HASH_LENGTH_def)
  then show ?thesis using Some by simp
qed

theorem search_checksumSecurity_witness:
  "length (replicate 729 (0::int)) = STATE_LENGTH \<and> isTrits (replicate 729 0)
   \<and> (case search (replicate 729 0) 2 81 0 of
           None \<Rightarrow> True
         | Some nonce \<Rightarrow>
             2 \<le> checksumSecurity
                     (rate (absorb \<lparr>state = replicate 729 0, rounds = 27\<rparr> nonce 0 (length nonce))
                        HASH_LENGTH))"
proof -
  have a: "length (replicate 729 (0::int)) = STATE_LENGTH"
    by (simp add: STATE_LENGTH_def HASH_LENGTH_def)
  have b: "isTrits (replicate 729 0)" by simp
  have c: "(2::nat) \<in> {1, 2, 3}" by simp
  from a b search_checksumSecurity [OF a b c] show ?thesis by simp
qed

text \<open>The nonce can be longer than the 81 trits asked for: the window of the search grows
  when the counter in its last third overflows, at once when the trits 54 to 80 of the
  state are all 1.\<close>

lemma searchLoop_length:
  assumes res: "searchLoop sec off s n = Some y" and "off = 0" "n \<le> HASH_LENGTH"
  shows "n \<le> length y"
proof -
  have "off = 0 \<and> n \<le> HASH_LENGTH \<longrightarrow> n \<le> length y"
  proof (rule searchLoop.raw_induct
      [where P = "\<lambda>sl off s n y. off = 0 \<and> n \<le> HASH_LENGTH \<longrightarrow> n \<le> length y", OF _ res])
    fix f :: "nat \<Rightarrow> nat \<Rightarrow> searchStates \<Rightarrow> nat \<Rightarrow> trits option"
      and securityLevel offset :: nat and st :: searchStates and size0 :: nat and y :: trits
    assume IH: "\<And>a b c d y. f a b c d = Some y \<Longrightarrow> b = 0 \<and> d \<le> HASH_LENGTH \<longrightarrow> d \<le> length y"
    assume body: "(let (st', incrementResult) =
            increment st (offset + size0 * 2 div 3) (offset + size0);
          size' = min (roundThird (offset + size0 * 2 div 3 + incrementResult)) HASH_LENGTH - offset;
          curlCopy = hdTransform \<lparr>low = slice (low st') 0 (length (low st')),
                                  high = slice (high st') 0 (length (high st'))\<rparr>;
          idx = check securityLevel (low curlCopy) (high curlCopy)
      in if idx = 0 then f securityLevel offset st' size'
         else Some (trinaryGet (low st') (high st') size' idx)) = Some y"
    show "offset = 0 \<and> size0 \<le> HASH_LENGTH \<longrightarrow> size0 \<le> length y"
    proof (intro impI, elim conjE)
      assume off: "offset = 0" and sz: "size0 \<le> HASH_LENGTH"
      let ?from = "size0 * 2 div 3"
      let ?st' = "fst (increment st ?from size0)"
      let ?incr = "snd (increment st ?from size0)"
      let ?size' = "min (roundThird (?from + ?incr)) HASH_LENGTH"
      let ?T = "hdTransform \<lparr>low = slice (low ?st') 0 (length (low ?st')),
                             high = slice (high ?st') 0 (length (high ?st'))\<rparr>"
      let ?idx = "check securityLevel (low ?T) (high ?T)"
      from body [unfolded off] have body':
        "(if ?idx = 0 then f securityLevel 0 ?st' ?size'
          else Some (trinaryGet (low ?st') (high ?st') ?size' ?idx)) = Some y"
        by (simp add: Let_def split_beta)
      have "size0 \<le> ?from + ?incr"
        using increment_result [of st ?from size0] by auto
      also have "\<dots> \<le> roundThird (?from + ?incr)" by (rule roundThird_ge)
      finally have ge: "size0 \<le> ?size'" using sz by simp
      show "size0 \<le> length y"
      proof (cases "?idx = 0")
        case True
        with body' have "f securityLevel 0 ?st' ?size' = Some y" by simp
        from IH [OF this] have "?size' \<le> length y" by simp
        with ge show ?thesis by (rule order_trans)
      next
        case False
        with body' have "y = trinaryGet (low ?st') (high ?st') ?size' ?idx" by simp
        then have "length y = ?size'" by (simp add: trinaryGet_def)
        with ge show ?thesis by (simp only:)
      qed
    qed
  qed
  with assms(2,3) show ?thesis by simp
qed

lemma incrementFrom_carry:
  assumes "\<forall>i. a \<le> i \<and> i < b \<longrightarrow> i < length (low s) \<and> i < length (high s)
                 \<and> low s ! i = 0 \<and> high s ! i = MAX_VALUE"
  shows "\<not> snd (incrementFrom s a b)"
  using assms
proof (induction s a b rule: incrementFrom.induct)
  case (1 states i toIndex)
  show ?case
  proof (cases "i < toIndex")
    case False
    then show ?thesis by (subst incrementFrom.simps) simp
  next
    case True
    let ?lo = "low states ! i" and ?hi = "high states ! i"
    let ?s' = "states\<lparr>low := (low states)[i := xor ?hi ?lo], high := (high states)[i := ?lo]\<rparr>"
    from "1.prems" True have v: "?lo = 0" "?hi = MAX_VALUE" by simp_all
    have carry: "and ?hi (not ?lo) \<noteq> 0" by (simp add: v MAX_VALUE_def)
    have "\<forall>j. i + 1 \<le> j \<and> j < toIndex \<longrightarrow> j < length (low ?s') \<and> j < length (high ?s')
              \<and> low ?s' ! j = 0 \<and> high ?s' ! j = MAX_VALUE"
      using "1.prems" by simp
    from "1.IH" [OF True refl refl refl carry this]
    have "\<not> snd (incrementFrom ?s' (i + 1) toIndex)" .
    then show ?thesis
      using True carry by (subst incrementFrom.simps) (simp add: Let_def)
  qed
qed

lemma search_long_nonce:
  assumes len: "length st = STATE_LENGTH" and ones: "\<forall>i. 54 \<le> i \<and> i < 81 \<longrightarrow> st ! i = 1"
  shows "case search st sec 81 0 of None \<Rightarrow> True | Some nonce \<Rightarrow> 84 \<le> length nonce"
proof (cases "search st sec 81 0")
  case None
  then show ?thesis by simp
next
  case (Some nonce)
  let ?s = "prepareTrits st 0"
  have res: "searchLoop sec 0 ?s 81 = Some nonce"
    using Some by (simp add: search_def HASH_LENGTH_def)
  have enc: "\<forall>i. 54 \<le> i \<and> i < 81 \<longrightarrow> i < length (low ?s) \<and> i < length (high ?s)
               \<and> low ?s ! i = 0 \<and> high ?s ! i = MAX_VALUE"
    using len ones
    by (auto simp: prepareTrits_def tritsToBigInt_def Let_def STATE_LENGTH_def HASH_LENGTH_def
          MIN_VALUE_def)
  have nc: "\<not> snd (incrementFrom ?s 54 81)" using enc by (rule incrementFrom_carry)
  let ?st' = "fst (increment ?s 54 81)"
  have incr: "snd (increment ?s 54 81) = 28"
    using nc by (simp add: increment_def split_beta)
  have r: "roundThird 82 = 84" by (simp add: roundThird_def RADIX_def)
  let ?T = "hdTransform \<lparr>low = slice (low ?st') 0 (length (low ?st')),
                         high = slice (high ?st') 0 (length (high ?st'))\<rparr>"
  let ?idx = "check sec (low ?T) (high ?T)"
  have "searchLoop sec 0 ?s 81
          = (if ?idx = 0 then searchLoop sec 0 ?st' 84
             else Some (trinaryGet (low ?st') (high ?st') 84 ?idx))"
    by (subst searchLoop.simps) (simp add: Let_def split_beta incr r HASH_LENGTH_def)
  with res have body: "(if ?idx = 0 then searchLoop sec 0 ?st' 84
             else Some (trinaryGet (low ?st') (high ?st') 84 ?idx)) = Some nonce" by simp
  have "84 \<le> length nonce"
  proof (cases "?idx = 0")
    case True
    with body have "searchLoop sec 0 ?st' 84 = Some nonce" by simp
    then show ?thesis by (rule searchLoop_length) (simp_all add: HASH_LENGTH_def)
  next
    case False
    with body have "nonce = trinaryGet (low ?st') (high ?st') 84 ?idx" by simp
    then show ?thesis by (simp add: trinaryGet_def)
  qed
  then show ?thesis using Some by simp
qed

section \<open>The Merkle tree\<close>

lemma length_hashPair [simp]: "length (hashPair a b) = HASH_LENGTH"
  by (simp add: hashPair_def rate_def slice_def newCurl_def STATE_LENGTH_def HASH_LENGTH_def)

lemma wfNode_facts:
  "wfNode h n \<Longrightarrow> 0 < nodeSize n \<and> nodeSize n \<le> 2 ^ h \<and> length (addressTrits n) = HASH_LENGTH
                 \<and> length (leavesOf n) = nodeSize n \<and> list_all isLeaf (leavesOf n)"
proof (induction h arbitrary: n)
  case 0
  then show ?case by (cases n) (auto simp: isLeaf_def)
next
  case (Suc h)
  obtain l r s a k where n: "n = MerkleNode l r s a k" by (cases n)
  show ?case
  proof (cases l)
    case None
    with Suc.prems n show ?thesis by simp
  next
    case (Some l')
    show ?thesis
    proof (cases r)
      case None
      with Suc.prems n Some have "wfNode h l'" "s = nodeSize l'" "a = addressTrits l'" by simp_all
      with Suc.IH [of l'] n Some None show ?thesis by simp
    next
      case (Some r')
      with Suc.prems n \<open>l = Some l'\<close> have w: "wfNode h l'" "wfNode h r'" "nodeSize l' = 2 ^ h"
        "s = nodeSize l' + nodeSize r'" "a = hashPair (addressTrits l') (addressTrits r')"
        by simp_all
      with Suc.IH [of l'] Suc.IH [of r'] n Some \<open>l = Some l'\<close> show ?thesis by simp
    qed
  qed
qed

lemma climb_append:
  "climb a (xs @ ys) i = climb (climb a xs i) ys (i div 2 ^ length xs)"
proof (induction xs arbitrary: a i)
  case Nil
  then show ?case by simp
next
  case (Cons x xs)
  have "i div 2 div 2 ^ length xs = i div (2 * 2 ^ length xs)"
    by (simp add: zdiv_zmult2_eq)
  with Cons show ?case by simp
qed

lemma climb_mod: "climb a xs (i mod 2 ^ length xs) = climb a xs i"
proof (induction xs arbitrary: a i)
  case Nil
  then show ?case by simp
next
  case (Cons x xs)
  have e: "even (i mod (2 * 2 ^ length xs)) = even i"
    by (simp add: dvd_mod_iff)
  have d: "i mod (2 * 2 ^ length xs) div 2 = (i div 2) mod 2 ^ length xs"
    by (simp add: zmod_zmult2_eq)
  show ?case using Cons [of _ "i div 2"] by (simp add: e d)
qed


lemma pair_address:
  "fst (squeeze (absorb (absorb (newCurl 27) a 0 (length a)) b 0 (length b))
          (replicate HASH_LENGTH 0) 0 HASH_LENGTH) = hashPair a b"
proof -
  let ?c = "absorb (absorb (newCurl 27) a 0 (length a)) b 0 (length b)"
  have len: "HASH_LENGTH \<le> length (state ?c)"
    by (simp add: newCurl_def STATE_LENGTH_def)
  have "squeeze ?c (replicate HASH_LENGTH 0) 0 (length (replicate HASH_LENGTH (0::int)))
          = (take HASH_LENGTH (state ?c), transform ?c)"
    by (rule squeeze_block) (simp_all add: len)
  then show ?thesis by (simp add: hashPair_def rate_def slice_def)
qed

lemma buildLevel_pair:
  "buildLevel (l # r # rest)
     = newMerkleNode (Some l) (Some r) (hashPair (addressTrits l) (addressTrits r)) None
       # buildLevel rest"
  by (simp add: Let_def pair_address)

lemma buildLevel_Nil_iff [simp]: "buildLevel ns = [] \<longleftrightarrow> ns = []"
  by (induction ns rule: buildLevel.induct) (simp_all add: Let_def)

lemma length_buildLevel: "length (buildLevel ns) = (length ns + 1) div 2"
  by (induction ns rule: buildLevel.induct) (simp_all add: Let_def)

lemma leavesOf_leaf: "isLeaf n \<Longrightarrow> leavesOf n = [n]"
  by (cases n) (simp add: isLeaf_def)

lemma buildLevel_wf:
  assumes "\<forall>n\<in>set ns. wfNode h n" "\<forall>n\<in>set (butlast ns). nodeSize n = 2 ^ h"
  shows "(\<forall>n\<in>set (buildLevel ns). wfNode (Suc h) n)
         \<and> (\<forall>n\<in>set (butlast (buildLevel ns)). nodeSize n = 2 ^ Suc h)
         \<and> concat (map leavesOf (buildLevel ns)) = concat (map leavesOf ns)"
  using assms
proof (induction ns rule: buildLevel.induct)
  case (1 l r rest)
  let ?N = "newMerkleNode (Some l) (Some r) (hashPair (addressTrits l) (addressTrits r)) None"
  from "1.prems" have wl: "wfNode h l" and wr: "wfNode h r" and sl: "nodeSize l = 2 ^ h"
    by simp_all
  have rest: "\<forall>n\<in>set rest. wfNode h n" "\<forall>n\<in>set (butlast rest). nodeSize n = 2 ^ h"
    using "1.prems" by (auto split: if_splits)
  note IH = "1.IH" [OF refl refl refl rest]
  have wN: "wfNode (Suc h) ?N"
    using wl wr sl by (simp add: newMerkleNode_def)
  have lN: "leavesOf ?N = leavesOf l @ leavesOf r"
    by (simp add: newMerkleNode_def)
  have sN: "rest \<noteq> [] \<Longrightarrow> nodeSize ?N = 2 ^ Suc h"
  proof -
    assume "rest \<noteq> []"
    with "1.prems"(2) have "nodeSize r = 2 ^ h" by simp
    with sl show ?thesis by (simp add: newMerkleNode_def)
  qed
  show ?case
    unfolding buildLevel_pair using IH wN lN sN by auto
next
  case (2 l)
  then show ?case by (simp add: newMerkleNode_def)
next
  case 3
  then show ?case by simp
qed

lemma buildTree_total:
  assumes "ns \<noteq> []" "\<forall>n\<in>set ns. wfNode h n" "\<forall>n\<in>set (butlast ns). nodeSize n = 2 ^ h"
  shows "\<exists>t h'. buildTree ns = Some t \<and> wfNode (Suc h') t
                \<and> leavesOf t = concat (map leavesOf ns)"
  using assms
proof (induction "length ns" arbitrary: ns h rule: less_induct)
  case less
  let ?sub = "buildLevel ns"
  note lv = buildLevel_wf [OF less.prems(2,3)]
  have bt: "buildTree ns = (if length ?sub = 1 then Some (hd ?sub) else buildTree ?sub)"
    by (subst buildTree.simps) (simp add: Let_def)
  show ?case
  proof (cases "length ?sub = 1")
    case True
    then obtain t where t: "?sub = [t]" by (cases ?sub) auto
    with lv have "wfNode (Suc h) t" "leavesOf t = concat (map leavesOf ns)" by auto
    with bt True t show ?thesis by auto
  next
    case False
    have ne: "?sub \<noteq> []" using less.prems(1) by simp
    have "length ?sub < length ns"
      using False less.prems(1) by (cases ns) (auto simp: length_buildLevel)
    from less.hyps [OF this ne] lv obtain t h' where
      "buildTree ?sub = Some t" "wfNode (Suc h') t"
      "leavesOf t = concat (map leavesOf ?sub)" by blast
    with bt False lv show ?thesis by auto
  qed
qed

lemma buildTree_leaves:
  assumes "leaves \<noteq> []" "list_all isLeaf leaves"
  shows "\<exists>t h. buildTree leaves = Some t \<and> wfNode (Suc h) t \<and> leavesOf t = leaves"
proof -
  have a: "\<forall>n\<in>set leaves. wfNode 0 n" using assms(2) by (simp add: list_all_iff)
  have b: "\<forall>n\<in>set (butlast leaves). nodeSize n = 2 ^ 0"
    using assms(2) by (auto simp: list_all_iff isLeaf_def dest: in_set_butlastD)
  have "concat (map leavesOf leaves) = leaves"
    using assms(2) by (induction leaves) (simp_all add: leavesOf_leaf)
  with buildTree_total [OF assms(1) a b] show ?thesis by simp
qed


lemma descend_climb:
  assumes "wfNode h n" "0 \<le> i" "i < int (nodeSize n)" "paired n i"
  shows "\<exists>sibs. descend n i acc = (privateKeyTrits (leavesOf n ! nat i), acc @ sibs)
           \<and> length sibs = h
           \<and> (\<forall>s\<in>set sibs. length (addressTrits s) = HASH_LENGTH)
           \<and> climb (addressTrits (leavesOf n ! nat i)) (map addressTrits (rev sibs)) i
               = addressTrits n"
  using assms
proof (induction h arbitrary: n i acc)
  case 0
  then show ?case by (cases n) (auto simp: isLeaf_def)
next
  case (Suc h)
  obtain l r s a k where n: "n = MerkleNode l r s a k" by (cases n)
  from Suc.prems(1,4) n obtain l' r' where l: "l = Some l'" and r: "r = Some r'"
    by (cases l; cases r) auto
  from Suc.prems(1) n l r have w: "wfNode h l'" "wfNode h r'" "nodeSize l' = 2 ^ h"
    "s = nodeSize l' + nodeSize r'" "a = hashPair (addressTrits l') (addressTrits r')"
    by simp_all
  note fl = wfNode_facts [OF w(1)] and fr = wfNode_facts [OF w(2)]
  have p2: "int (nodeSize l') = 2 ^ h" using w(3) by simp
  show ?case
  proof (cases "i < int (nodeSize l')")
    case True
    from Suc.prems(4) n l r True have "paired l' i" by simp
    from Suc.IH [OF w(1) Suc.prems(2) True this, of "acc @ [r']"]
    obtain sibs where d: "descend l' i (acc @ [r']) = (privateKeyTrits (leavesOf l' ! nat i), (acc @ [r']) @ sibs)"
      and len: "length sibs = h"
      and al: "\<forall>s\<in>set sibs. length (addressTrits s) = HASH_LENGTH"
      and cl: "climb (addressTrits (leavesOf l' ! nat i)) (map addressTrits (rev sibs)) i
                 = addressTrits l'" by blast
    have ni: "nat i < nodeSize l'" using True Suc.prems(2) by linarith
    have lf: "leavesOf n ! nat i = leavesOf l' ! nat i"
      using n l r ni fl by (simp add: nth_append)
    have z: "i div 2 ^ h = 0" using True p2 Suc.prems(2) by simp
    have "climb (addressTrits (leavesOf n ! nat i)) (map addressTrits (rev (r' # sibs))) i
            = addressTrits n"
      unfolding lf using cl z by (simp add: climb_append len n w(5))
    moreover have "descend n i acc = (privateKeyTrits (leavesOf n ! nat i), acc @ (r' # sibs))"
      unfolding lf using d True by (simp add: n l r)
    ultimately show ?thesis using len al fr by (intro exI [of _ "r' # sibs"]) simp
  next
    case False
    let ?j = "i - int (nodeSize l')"
    have j0: "0 \<le> ?j" using False by simp
    have j1: "?j < int (nodeSize r')" using Suc.prems(3) n w(4) by simp
    from Suc.prems(4) n l r False have "paired r' ?j" by simp
    from Suc.IH [OF w(2) j0 j1 this, of "acc @ [l']"]
    obtain sibs where d: "descend r' ?j (acc @ [l']) = (privateKeyTrits (leavesOf r' ! nat ?j), (acc @ [l']) @ sibs)"
      and len: "length sibs = h"
      and al: "\<forall>s\<in>set sibs. length (addressTrits s) = HASH_LENGTH"
      and cl: "climb (addressTrits (leavesOf r' ! nat ?j)) (map addressTrits (rev sibs)) ?j
                 = addressTrits r'" by blast
    have nj: "nat ?j = nat i - nodeSize l'" by simp
    have ni: "\<not> nat i < nodeSize l'" using False by linarith
    have lf: "leavesOf n ! nat i = leavesOf r' ! nat ?j"
      using n l r ni fl by (simp add: nth_append nj)
    have "nodeSize r' \<le> 2 ^ h" using fr by simp
    then have "int (nodeSize r') \<le> int (2 ^ h)" by (simp only: of_nat_le_iff)
    then have rb: "int (nodeSize r') \<le> 2 ^ h" by simp
    have "?j < 2 ^ h" using j1 rb by linarith
    with j0 have jd: "?j div 2 ^ h = 0" by (rule div_pos_pos_trivial)
    have "(?j + 2 ^ h) div 2 ^ h = ?j div 2 ^ h + 1" by (rule div_add_self2) simp
    then have o: "i div 2 ^ h = 1" using jd by (simp add: p2)
    have "climb (addressTrits (leavesOf r' ! nat ?j)) (map addressTrits (rev sibs)) i
            = climb (addressTrits (leavesOf r' ! nat ?j)) (map addressTrits (rev sibs))
                (i mod 2 ^ length (map addressTrits (rev sibs)))"
      by (rule climb_mod [symmetric])
    also have "i mod 2 ^ length (map addressTrits (rev sibs)) = ?j mod 2 ^ length (map addressTrits (rev sibs))"
      by (simp add: len p2)
    also have "climb (addressTrits (leavesOf r' ! nat ?j)) (map addressTrits (rev sibs)) \<dots>
                 = addressTrits r'"
      using cl by (simp only: climb_mod)
    finally have cr: "climb (addressTrits (leavesOf r' ! nat ?j)) (map addressTrits (rev sibs)) i
                        = addressTrits r'" .
    have "climb (addressTrits (leavesOf n ! nat i)) (map addressTrits (rev (l' # sibs))) i
            = addressTrits n"
      unfolding lf using cr o by (simp add: climb_append len n w(5))
    moreover have "descend n i acc = (privateKeyTrits (leavesOf n ! nat i), acc @ (l' # sibs))"
      unfolding lf using d False by (simp add: n l r)
    ultimately show ?thesis using len al fl by (intro exI [of _ "l' # sibs"]) simp
  qed
qed


lemma toInt32_small: "- (2 ^ 31) \<le> v \<Longrightarrow> v < 2 ^ 31 \<Longrightarrow> toInt32 v = v"
  unfolding toInt32_def by (rule signed_take_bit_int_eq_self)

lemma pow_lt_31: "c \<le> 30 \<Longrightarrow> (2::int) ^ c < 2 ^ 31"
  by (rule power_strict_increasing) simp_all

lemma jsAnd_bit:
  assumes "c \<le> 30"
  shows "(jsAnd (2 ^ c) idx = 0) = even (idx div 2 ^ c)"
proof -
  have "- (2 ^ 31) \<le> (2::int) ^ c"
    by (rule order_trans [of _ 0]) simp_all
  then have t: "toInt32 (2 ^ c) = 2 ^ c" using pow_lt_31 [OF assms] by (rule toInt32_small)
  have "(and (toInt32 idx) (2 ^ c) = 0) = (\<not> bit (toInt32 idx) c)"
    by (rule and_exp_eq_0_iff_not_bit)
  moreover have "bit (toInt32 idx) c = bit idx c"
    using assms by (simp add: toInt32_def bit_signed_take_bit_iff min_def)
  moreover have "bit idx c = odd (idx div 2 ^ c)" by (rule bit_iff_odd)
  ultimately show ?thesis by (simp add: jsAnd_def t and.commute)
qed

lemma jsShl_double:
  assumes "c < 30"
  shows "jsShl (2 ^ c) 1 = 2 ^ Suc c"
proof -
  have n: "- (2 ^ 31) \<le> (2::int) ^ k" for k
    by (rule order_trans [of _ 0]) simp_all
  have "c \<le> 30" "Suc c \<le> 30" using assms by simp_all
  note lt = this [THEN pow_lt_31]
  have a: "toInt32 (2 ^ c) = 2 ^ c" using n lt(1) by (rule toInt32_small)
  have b: "toInt32 (2 ^ Suc c) = 2 ^ Suc c" using n lt(2) by (rule toInt32_small)
  show ?thesis using b by (simp add: jsShl_def a ac_simps)
qed

lemma reset_27: "rounds c = 27 \<Longrightarrow> reset c = newCurl 27"
  by (cases c) (simp add: reset_def newCurl_def)

lemma slice_concat_nth:
  assumes "\<forall>s\<in>set sibs. length s = h" "c < length sibs"
  shows "slice (concat sibs) (c * h) ((c + 1) * h) = sibs ! c"
proof -
  have "slice (concat (map (nth sibs) [0..<length sibs])) (c * h) ((c + 1) * h) = sibs ! c"
    using assms by (intro slice_concat_blocks) simp_all
  then show ?thesis by (simp add: map_nth)
qed

lemma length_concat_same:
  "\<forall>s\<in>set sibs. length s = h \<Longrightarrow> length (concat sibs) = length sibs * h"
  by (induction sibs) simp_all

lemma root_fold:
  assumes "\<forall>s\<in>set sibs. length s = HASH_LENGTH" "length sibs \<le> 31" "c \<le> length sibs"
  shows "\<exists>S I. fold (rootStep (concat sibs) idx) [0..<c] (newCurl 27, 1, a)
                  = (S, I, climb a (take c sibs) idx)
               \<and> rounds S = 27 \<and> (c \<le> 30 \<longrightarrow> I = 2 ^ c)
               \<and> (0 < c \<longrightarrow> rate S HASH_LENGTH = climb a (take c sibs) idx)"
  using assms(3)
proof (induction c)
  case 0
  then show ?case by (simp add: newCurl_def)
next
  case (Suc c)
  then have c: "c < length sibs" and c30: "c \<le> 30" using assms(2) by simp_all
  from Suc obtain S I where
    f: "fold (rootStep (concat sibs) idx) [0..<c] (newCurl 27, 1, a)
          = (S, I, climb a (take c sibs) idx)"
    and r: "rounds S = 27" and i: "I = 2 ^ c"
    using c30 by auto
  let ?r = "climb a (take c sibs) idx"
  let ?chunk = "sibs ! c"
  let ?S' = "if even (idx div 2 ^ c)
             then absorb (absorb (newCurl 27) ?r 0 (length ?r)) ?chunk 0 (length ?chunk)
             else absorb (absorb (newCurl 27) ?chunk 0 (length ?chunk)) ?r 0 (length ?r)"
  have step: "rootStep (concat sibs) idx c (S, I, ?r) = (?S', jsShl I 1, rate ?S' HASH_LENGTH)"
    unfolding rootStep_def prod.case Let_def
    by (simp only: slice_concat_nth [OF assms(1) c] reset_27 [OF r] i jsAnd_bit [OF c30])
  have lt: "min (length sibs) c = c" using c by simp
  have rt: "rate ?S' HASH_LENGTH = climb a (take (Suc c) sibs) idx"
    by (simp add: take_Suc_conv_app_nth [OF c] climb_append hashPair_def lt)
  have rs: "rounds ?S' = 27" by (simp add: newCurl_def)
  have sh: "Suc c \<le> 30 \<Longrightarrow> jsShl I 1 = 2 ^ Suc c"
    using jsShl_double [of c] i by simp
  have "fold (rootStep (concat sibs) idx) [0..<Suc c] (newCurl 27, 1, a)
          = (?S', jsShl I 1, climb a (take (Suc c) sibs) idx)"
    by (simp add: f step rt)
  with rt rs sh show ?case by (intro exI [of _ ?S'] exI [of _ "jsShl I 1"]) simp
qed

lemma root_climb:
  assumes "sibs \<noteq> []" "\<forall>s\<in>set sibs. length s = HASH_LENGTH" "length sibs \<le> 31"
  shows "root a (concat sibs) idx = climb a sibs idx"
proof -
  from root_fold [OF assms(2,3) order_refl, of idx a] obtain S I where
    f: "fold (rootStep (concat sibs) idx) [0..<length sibs] (newCurl 27, 1, a)
          = (S, I, climb a sibs idx)"
    and r: "rate S HASH_LENGTH = climb a sibs idx"
    using assms(1) by auto
  have n: "(length (concat sibs) + HASH_LENGTH - 1) div HASH_LENGTH = length sibs"
    by (simp only: length_concat_same [OF assms(2)] numChunks_blocks)
  show ?thesis
    unfolding root_def Let_def n f prod.case by (rule r)
qed

lemma concatenate_concat: "concatenate xs = concat xs"
proof -
  have "fold (\<lambda>arr result. result @ arr) xs acc = acc @ concat xs" for acc
    by (induction xs arbitrary: acc) simp_all
  then show ?thesis by (simp add: concatenate_def)
qed


lemma paired_root_size:
  assumes "wfNode (Suc h) t" "paired t i"
  shows "2 ^ h < nodeSize t"
proof -
  obtain l r s a k where t: "t = MerkleNode l r s a k" by (cases t)
  from assms t obtain l' r' where l: "l = Some l'" and r: "r = Some r'"
    by (cases l; cases r) auto
  from assms(1) t l r have "wfNode h r'" "nodeSize l' = 2 ^ h" "s = nodeSize l' + nodeSize r'"
    by simp_all
  with wfNode_facts [of h r'] t show ?thesis by simp
qed

lemma root_getSubtree_wf:
  assumes wf: "wfNode (Suc h) t" and sz: "nodeSize t \<le> 2 ^ 31"
    and i0: "0 \<le> i" and i1: "i < int (nodeSize t)" and p: "paired t i"
  shows "root (addressTrits (leavesOf t ! nat i))
              (concatenate (map addressTrits (snd (getSubtree t i)))) i
           = addressTrits t"
proof -
  from descend_climb [OF wf i0 i1 p, of "[]"] obtain sibs where
    d: "descend t i [] = (privateKeyTrits (leavesOf t ! nat i), sibs)"
    and len: "length sibs = Suc h"
    and al: "\<forall>s\<in>set sibs. length (addressTrits s) = HASH_LENGTH"
    and cl: "climb (addressTrits (leavesOf t ! nat i)) (map addressTrits (rev sibs)) i
               = addressTrits t" by auto
  from paired_root_size [OF wf p] have big: "2 ^ h < nodeSize t" .
  then have "(2::nat) ^ h < 2 ^ 31" using sz by simp
  then have h31: "h < 31" using power_strict_increasing_iff [of "2::nat" h 31] by simp
  have "(1::nat) \<le> 2 ^ h" by (rule one_le_power) simp
  with big have n1: "nodeSize t \<noteq> 1" by linarith
  have gs: "snd (getSubtree t i) = rev sibs"
    using n1 i1 d by (simp add: getSubtree_def)
  have "root (addressTrits (leavesOf t ! nat i)) (concat (map addressTrits (rev sibs))) i
          = climb (addressTrits (leavesOf t ! nat i)) (map addressTrits (rev sibs)) i"
  proof (rule root_climb)
    show "map addressTrits (rev sibs) \<noteq> []" using len by auto
    show "\<forall>s\<in>set (map addressTrits (rev sibs)). length s = HASH_LENGTH" using al by simp
    show "length (map addressTrits (rev sibs)) \<le> 31" using len h31 by simp
  qed
  with cl show ?thesis by (simp add: gs concatenate_concat)
qed

lemma root_no_siblings: "root a [] i = replicate HASH_LENGTH 0"
  by (simp add: root_def rate_def slice_def newCurl_def STATE_LENGTH_def HASH_LENGTH_def)

lemma buildTree_single:
  "buildTree [l] = Some (MerkleNode (Some l) None (nodeSize l) (addressTrits l) None)"
  by (subst buildTree.simps) (simp add: newMerkleNode_def)

lemma getSubtree_single:
  "snd (getSubtree (MerkleNode (Some l) None 1 a k) i) = []"
  by (simp add: getSubtree_def)

lemma length_address [simp]: "length (address dg) = HASH_LENGTH"
proof -
  let ?c = "absorb (newCurl 27) dg 0 (length dg)"
  have len: "HASH_LENGTH \<le> length (state ?c)"
    by (simp add: newCurl_def STATE_LENGTH_def)
  have "squeeze ?c (replicate HASH_LENGTH 0) 0 (length (replicate HASH_LENGTH (0::int)))
          = (take HASH_LENGTH (state ?c), transform ?c)"
    by (rule squeeze_block) (simp_all add: len)
  then show ?thesis using len by (simp add: address_def)
qed


lemma isLeaf_generated:
  "isLeaf (let (a, k) = generateAddress st j sec in MerkleNode None None 1 a (Some k))"
  by (simp add: generateAddress_def Let_def isLeaf_def)

lemma newMerkleTree_root:
  assumes "toTrits sd = Some st" "0 < cnt" "cnt \<le> 2 ^ 31" "0 \<le> i" "i < cnt"
  shows "\<exists>t. newMerkleTree sd s0 cnt sec = Some t
           \<and> (paired t i \<longrightarrow>
               root (fst (generateAddress st (s0 + i) sec))
                    (concatenate (map addressTrits (snd (getSubtree t i)))) i
                 = addressTrits t)"
proof -
  let ?leaf = "\<lambda>j. let (a, k) = generateAddress st (s0 + int j) sec
                   in MerkleNode None None 1 a (Some k)"
  let ?leaves = "map ?leaf [0..<nat cnt]"
  have nt: "newMerkleTree sd s0 cnt sec = buildTree ?leaves"
    by (simp add: newMerkleTree_def assms(1))
  have a: "?leaves \<noteq> []" using assms(2) by simp
  have b: "list_all isLeaf ?leaves"
    unfolding list_all_iff using isLeaf_generated by auto
  from buildTree_leaves [OF a b] obtain t h where
    bt: "buildTree ?leaves = Some t" and wf: "wfNode (Suc h) t" and lv: "leavesOf t = ?leaves"
    by blast
  have sz: "nodeSize t = nat cnt" using wfNode_facts [OF wf] lv by simp
  have "nat cnt \<le> nat (2 ^ 31)" using assms(3) by (rule nat_mono)
  then have c: "nodeSize t \<le> 2 ^ 31" using sz by simp
  have d: "i < int (nodeSize t)" using assms(5) sz by simp
  have e: "addressTrits (?leaves ! nat i) = fst (generateAddress st (s0 + i) sec)"
    using assms(4,5) by (simp add: Let_def split: prod.split)
  have "root (fst (generateAddress st (s0 + i) sec))
             (concatenate (map addressTrits (snd (getSubtree t i)))) i
          = addressTrits t" if p: "paired t i"
    using root_getSubtree_wf [OF wf c assms(4) d p] unfolding lv e .
  with bt show ?thesis unfolding nt by simp
qed

text \<open>
  The paths with a right child everywhere.  For every non-empty list of at most \<open>2^31\<close>
  leaf nodes (nodes without children, of size 1, whose address has 243 trits: the nodes that
  the constructor of \<^verbatim>\<open>MerkleTree\<close> makes, see \<open>newMerkleTree_root\<close>) and every position
  \<open>i\<close> in it: \<^verbatim>\<open>buildTree\<close> returns a tree and, when every node on the path from its root
  to leaf \<open>i\<close> has a right child, \<^verbatim>\<open>MerkleTree.root\<close> of the address of leaf \<open>i\<close>, of the
  addresses of \<^verbatim>\<open>getSubtree(i).leaves\<close> put end to end, and of \<open>i\<close> is the address of the
  root.
\<close>

lemma root_getSubtree:
  assumes "leaves \<noteq> []" "list_all isLeaf leaves" "length leaves \<le> 2 ^ 31" "i < length leaves"
  shows "\<exists>t. buildTree leaves = Some t
           \<and> (paired t (int i) \<longrightarrow>
               root (addressTrits (leaves ! i))
                    (concatenate (map addressTrits (snd (getSubtree t (int i))))) (int i)
                 = addressTrits t)"
proof -
  from buildTree_leaves [OF assms(1,2)] obtain t h where
    bt: "buildTree leaves = Some t" and wf: "wfNode (Suc h) t" and lv: "leavesOf t = leaves"
    by blast
  have sz: "nodeSize t = length leaves" using wfNode_facts [OF wf] lv by simp
  have "root (addressTrits (leaves ! i))
             (concatenate (map addressTrits (snd (getSubtree t (int i))))) (int i)
          = addressTrits t" if p: "paired t (int i)"
    using root_getSubtree_wf [OF wf _ _ _ p] assms(3,4) sz lv by simp
  with bt show ?thesis by simp
qed

text \<open>The tree of one leaf, for every seed: \<^verbatim>\<open>getSubtree\<close> returns no sibling, and
  \<^verbatim>\<open>MerkleTree.root\<close> on no sibling returns the rate of a sponge that absorbed nothing, 243
  zeros, whatever the address of the leaf; the root of the tree has the address of the leaf.
  So the two are equal exactly when the address of the leaf is 243 zeros.\<close>

lemma newMerkleTree_single:
  assumes "toTrits sd = Some st"
  shows "\<exists>t. newMerkleTree sd s0 1 sec = Some t
           \<and> addressTrits t = fst (generateAddress st s0 sec)
           \<and> snd (getSubtree t 0) = []
           \<and> root (fst (generateAddress st s0 sec))
                  (concatenate (map addressTrits (snd (getSubtree t 0)))) 0
               = replicate HASH_LENGTH 0"
proof -
  let ?l = "let (a, k) = generateAddress st s0 sec in MerkleNode None None 1 a (Some k)"
  let ?t = "MerkleNode (Some ?l) None (nodeSize ?l) (addressTrits ?l) None"
  have n: "nodeSize ?l = 1" and a: "addressTrits ?l = fst (generateAddress st s0 sec)"
    by (simp_all add: Let_def split: prod.split)
  have "newMerkleTree sd s0 1 sec = buildTree [?l]"
    by (simp add: newMerkleTree_def assms)
  then have t: "newMerkleTree sd s0 1 sec = Some ?t"
    by (simp only: buildTree_single)
  have g: "snd (getSubtree ?t 0) = []"
    unfolding n by (rule getSubtree_single)
  show ?thesis
    unfolding t using g a by (simp add: concatenate_def root_no_siblings)
qed

text \<open>The seed of 81 letters \<open>A\<close>.\<close>

lemma toTrits_replicate_A:
  "toTrits (replicate n CHR ''A'') = Some (concat (replicate n [1, 0, 0]))"
  by (induction n) (simp_all add: ALPHABET_def TRYTES_TRITS_def)

text \<open>
  C4.  The round trip of the Merkle tree fails at a leaf below a node made of the last node
  of an odd level.  On the tree of three leaves of the seed of 81 letters \<open>A\<close> (start 0,
  security 1), with \<open>a0\<close>, \<open>a1\<close> and \<open>a2\<close> the addresses of the leaves and \<open>hashPair\<close> the hash
  of two addresses by a fresh sponge: the address of the root of the tree is
  \<open>hashPair (hashPair a0 a1) a2\<close>, as \<^verbatim>\<open>buildTree\<close> hands the address of a node without a
  neighbour up unchanged, and \<^verbatim>\<open>MerkleTree.root\<close> of the address of leaf 2, of the addresses
  of \<^verbatim>\<open>getSubtree(2).leaves\<close> put end to end, and of 2 is
  \<open>hashPair (hashPair a0 a1) (hashPair a2 a2)\<close>, as \<^verbatim>\<open>getSubtree\<close> gives the leaf as its own
  sibling and \<^verbatim>\<open>MerkleTree.root\<close> hashes the two.
\<close>

theorem root_orphan_leaf:
  "case newMerkleTree (replicate 81 CHR ''A'') 0 3 1 of
     None \<Rightarrow> False
   | Some t \<Rightarrow>
       (let st = concat (replicate 81 [1, 0, 0]);
            a0 = fst (generateAddress st 0 1);
            a1 = fst (generateAddress st 1 1);
            a2 = fst (generateAddress st 2 1)
        in addressTrits t = hashPair (hashPair a0 a1) a2
           \<and> map addressTrits (snd (getSubtree t 2)) = [a2, hashPair a0 a1]
           \<and> root a2 (concatenate (map addressTrits (snd (getSubtree t 2)))) 2
               = hashPair (hashPair a0 a1) (hashPair a2 a2))"
proof -
  define st :: trits where "st = concat (replicate 81 [1, 0, 0])"
  define l0 where "l0 = MerkleNode None None 1 (fst (generateAddress st 0 1))
                          (Some (snd (generateAddress st 0 1)))"
  define l1 where "l1 = MerkleNode None None 1 (fst (generateAddress st 1 1))
                          (Some (snd (generateAddress st 1 1)))"
  define l2 where "l2 = MerkleNode None None 1 (fst (generateAddress st 2 1))
                          (Some (snd (generateAddress st 2 1)))"
  define a0 where "a0 = fst (generateAddress st 0 1)"
  define a1 where "a1 = fst (generateAddress st 1 1)"
  define a2 where "a2 = fst (generateAddress st 2 1)"
  define n01 where "n01 = MerkleNode (Some l0) (Some l1) 2 (hashPair a0 a1) None"
  define n2 where "n2 = MerkleNode (Some l2) None 1 a2 None"
  define t where "t = MerkleNode (Some n01) (Some n2) 3 (hashPair (hashPair a0 a1) a2) None"
  have la: "length a0 = HASH_LENGTH" "length a1 = HASH_LENGTH" "length a2 = HASH_LENGTH"
    by (simp_all add: a0_def a1_def a2_def generateAddress_def Let_def)
  have ad: "addressTrits l0 = a0" "addressTrits l1 = a1" "addressTrits l2 = a2"
    and sz: "nodeSize l0 = 1" "nodeSize l1 = 1" "nodeSize l2 = 1"
    by (simp_all add: l0_def l1_def l2_def a0_def a1_def a2_def)
  have lv: "map (\<lambda>i. let (a, k) = generateAddress st (0 + int i) 1
                      in MerkleNode None None 1 a (Some k)) [0..<nat 3] = [l0, l1, l2]"
    by (simp add: l0_def l1_def l2_def upt_rec [of 0] upt_rec [of 1] upt_rec [of 2]
          numeral_3_eq_3 split: prod.split)
  have "buildLevel [l0, l1, l2]
          = [newMerkleNode (Some l0) (Some l1) (hashPair (addressTrits l0) (addressTrits l1)) None,
             newMerkleNode (Some l2) None (addressTrits l2) None]"
    by (simp only: buildLevel_pair buildLevel.simps(2))
  then have b1: "buildLevel [l0, l1, l2] = [n01, n2]"
    by (simp add: newMerkleNode_def n01_def n2_def ad sz)
  have ad2: "addressTrits n01 = hashPair a0 a1" "addressTrits n2 = a2"
    and sz2: "nodeSize n01 = 2" "nodeSize n2 = 1"
    by (simp_all add: n01_def n2_def)
  have "buildLevel [n01, n2]
          = [newMerkleNode (Some n01) (Some n2)
               (hashPair (addressTrits n01) (addressTrits n2)) None]"
    by (simp only: buildLevel_pair buildLevel.simps(3))
  then have b2: "buildLevel [n01, n2] = [t]"
    by (simp add: newMerkleNode_def ad2 sz2 t_def)
  have bt2: "buildTree [n01, n2] = Some t"
    by (subst buildTree.simps) (simp only: b2 Let_def, simp)
  have bt: "buildTree [l0, l1, l2] = Some t"
    by (subst buildTree.simps) (simp only: b1 Let_def, simp add: bt2)
  have nt: "newMerkleTree (replicate 81 CHR ''A'') 0 3 1 = Some t"
    unfolding newMerkleTree_def toTrits_replicate_A bind.bind_lunit st_def [symmetric] lv
    by (rule bt)
  have gs: "snd (getSubtree t 2) = [l2, n01]"
    by (simp add: getSubtree_def t_def n01_def n2_def l2_def)
  have sib: "map addressTrits (snd (getSubtree t 2)) = [a2, hashPair a0 a1]"
    by (simp add: gs ad n01_def)
  have "root a2 (concat [a2, hashPair a0 a1]) 2 = climb a2 [a2, hashPair a0 a1] 2"
    by (rule root_climb) (simp_all add: la)
  then have rt: "root a2 (concatenate (map addressTrits (snd (getSubtree t 2)))) 2
                   = hashPair (hashPair a0 a1) (hashPair a2 a2)"
    by (simp add: sib concatenate_concat)
  have at: "addressTrits t = hashPair (hashPair a0 a1) a2"
    by (simp add: t_def)
  show ?thesis
    unfolding nt option.case Let_def st_def [symmetric] a0_def [symmetric] a1_def [symmetric]
      a2_def [symmetric]
    using at sib rt by simp
qed

section \<open>Pascal encoding\<close>

lemma writeTrits_Some_nonneg:
  assumes "writeTrits input ts idx = Some y"
  shows "0 \<le> input"
proof (rule writeTrits.raw_induct [where P = "\<lambda>input ts idx y. 0 \<le> input", OF _ assms])
  fix f :: "int \<Rightarrow> trits \<Rightarrow> nat \<Rightarrow> (nat \<times> trits) option"
    and input :: int and ts :: trits and idx :: nat and y :: "nat \<times> trits"
  assume IH: "\<And>a b c z. f a b c = Some z \<Longrightarrow> 0 \<le> a"
  assume step: "(if input = 0 then Some (0, ts)
      else
        let abs0 = input div int RADIX;
            r0 = jsRem input (int RADIX);
            abs1 = (if r0 > 1 then abs0 + 1 else abs0);
            r = (if r0 > 1 then -1 else r0)
        in Option.bind (f abs1 (ts[idx := toInt8 r]) (idx + 1))
             (\<lambda>(n, ts'). Some (1 + n, ts'))) = Some y"
  show "0 \<le> input"
  proof (rule ccontr)
    assume "\<not> 0 \<le> input"
    then have neg: "input < 0" by simp
    then have r0: "\<not> 1 < jsRem input (int RADIX)"
      by (simp add: jsRem_def RADIX_def sgn_if)
    from step neg r0 obtain z where
      "f (input div int RADIX) (ts[idx := toInt8 (jsRem input (int RADIX))]) (idx + 1) = Some z"
      by (auto simp: Let_def split: if_splits Option.bind_splits)
    then have "0 \<le> input div int RADIX" by (rule IH)
    with neg show False by (simp add: RADIX_def pos_imp_zdiv_nonneg_iff)
  qed
qed

lemma pascalEncode_negative: "v < 0 \<Longrightarrow> pascalEncode v = None"
proof -
  assume v: "v < 0"
  have "writeTrits v ts 0 = None" for ts
    using writeTrits_Some_nonneg [of v ts 0] v by (cases "writeTrits v ts 0") auto
  then show ?thesis using v by (simp add: pascalEncode_def valueToTrits_def Let_def)
qed

lemma pascalEncode_zero: "pascalEncode 0 = Some [1, 0, 0, -1]"
  by (simp add: pascalEncode_def ZERO_def)

text \<open>The values that are not negative.\<close>

lemma tritsValue_Cons [simp]: "tritsValue (x # xs) = tritsValue xs * 3 + x"
  by (simp add: tritsValue_def)

lemma tritsValue_Nil [simp]: "tritsValue [] = 0"
  by (simp add: tritsValue_def)

lemma tritsValue_append:
  "tritsValue (xs @ ys) = tritsValue xs + 3 ^ length xs * tritsValue ys"
  by (induction xs) (simp_all add: algebra_simps)

lemma tritsValue_zeros [simp]: "tritsValue (replicate z 0) = 0"
  by (induction z) simp_all

lemma tritsValue_uminus: "tritsValue (map uminus xs) = - tritsValue xs"
  by (induction xs) simp_all

lemma isTrits_Cons [simp]: "isTrits (x # xs) \<longleftrightarrow> isTrit x \<and> isTrits xs"
  by (simp add: isTrits_def)

lemma isTrits_Nil [simp]: "isTrits []"
  by (simp add: isTrits_def)

lemma tritsValue_bound: "isTrits ts \<Longrightarrow> \<bar>tritsValue ts\<bar> \<le> int (tritBound (length ts))"
  by (induction ts) (auto simp: isTrit_def)

lemma bt_nonpos: "n \<le> 0 \<Longrightarrow> bt n = []"
  by (subst bt.simps) simp

lemma bt_high: "0 < n \<Longrightarrow> 1 < n mod 3 \<Longrightarrow> bt n = (-1) # bt (n div 3 + 1)"
  by (subst bt.simps) simp

lemma bt_low: "0 < n \<Longrightarrow> \<not> 1 < n mod 3 \<Longrightarrow> bt n = (n mod 3) # bt (n div 3)"
  by (subst bt.simps) simp

lemma bt_value: "0 \<le> n \<Longrightarrow> tritsValue (bt n) = n"
proof (induction n rule: bt.induct)
  case (1 n)
  show ?case
  proof (cases "n \<le> 0")
    case True
    with "1.prems" show ?thesis by (simp add: bt_nonpos)
  next
    case False
    then have pos: "0 < n" by simp
    show ?thesis
    proof (cases "n mod 3 > 1")
      case True
      then have m: "n mod 3 = 2" by presburger
      have "tritsValue (bt (n div 3 + 1)) = n div 3 + 1"
        using "1.IH"(1) [OF False True] False by simp
      then have "tritsValue (bt n) = (n div 3 + 1) * 3 - 1"
        by (simp add: bt_high [OF pos True])
      also have "\<dots> = n" using m by presburger
      finally show ?thesis .
    next
      case F2: False
      have "tritsValue (bt (n div 3)) = n div 3"
        using "1.IH"(2) [OF False F2] False by simp
      then have "tritsValue (bt n) = n div 3 * 3 + n mod 3"
        by (simp add: bt_low [OF pos F2])
      also have "\<dots> = n" by presburger
      finally show ?thesis .
    qed
  qed
qed

lemma bt_trits: "isTrits (bt n)"
proof (induction n rule: bt.induct)
  case (1 n)
  show ?case
  proof (cases "n \<le> 0")
    case True
    then show ?thesis by (simp add: bt_nonpos)
  next
    case False
    then have pos: "0 < n" by simp
    show ?thesis
    proof (cases "n mod 3 > 1")
      case True
      with False "1.IH"(1) show ?thesis by (simp add: bt_high [OF pos True] isTrit_def)
    next
      case F2: False
      then have "n mod 3 = 0 \<or> n mod 3 = 1" by presburger
      with False F2 "1.IH"(2) show ?thesis by (auto simp: bt_low [OF pos F2] isTrit_def)
    qed
  qed
qed

lemma bt_length: "n \<le> int (tritBound m) \<Longrightarrow> length (bt n) \<le> m"
proof (induction m arbitrary: n)
  case 0
  then show ?case by (simp add: bt_nonpos)
next
  case (Suc m)
  then have le: "n \<le> 3 * int (tritBound m) + 1" by simp
  show ?case
  proof (cases "n \<le> 0")
    case True
    then show ?thesis by (simp add: bt_nonpos)
  next
    case False
    then have pos: "0 < n" by simp
    show ?thesis
    proof (cases "n mod 3 > 1")
      case True
      with le have "n div 3 + 1 \<le> int (tritBound m)" by presburger
      from Suc.IH [OF this] show ?thesis by (simp add: bt_high [OF pos True])
    next
      case F2: False
      from le have "n div 3 \<le> int (tritBound m)" by presburger
      from Suc.IH [OF this] show ?thesis by (simp add: bt_low [OF pos F2])
    qed
  qed
qed

lemma toInt8_trit: "isTrit t \<Longrightarrow> toInt8 t = t"
  by (auto simp: isTrit_def toInt8_def)

lemma writeTrits_bt:
  assumes "0 \<le> n" "i + length (bt n) \<le> length ts"
  shows "writeTrits n ts i
           = Some (length (bt n), take i ts @ bt n @ drop (i + length (bt n)) ts)"
  using assms
proof (induction n arbitrary: ts i rule: bt.induct)
  case (1 n)
  show ?case
  proof (cases "n = 0")
    case True
    then show ?thesis using "1.prems"(2) by (subst writeTrits.simps) (simp add: bt_nonpos)
  next
    case False
    with "1.prems"(1) have pos: "\<not> n \<le> 0" by simp
    have rem: "jsRem n (int RADIX) = n mod 3"
      using pos by (simp add: jsRem_def RADIX_def sgn_if)
    show ?thesis
    proof (cases "n mod 3 > 1")
      case True
      let ?n' = "n div 3 + 1"
      have b: "bt n = (-1) # bt ?n'" using pos True by (simp add: bt_high)
      have len: "Suc i + length (bt ?n') \<le> length (ts[i := -1])"
        using "1.prems"(2) b by simp
      have n0: "0 \<le> ?n'" using pos by simp
      have i: "i < length ts" using "1.prems"(2) b by simp
      have "writeTrits ?n' (ts[i := -1]) (Suc i)
              = Some (length (bt ?n'),
                      take (Suc i) (ts[i := -1]) @ bt ?n' @ drop (Suc i + length (bt ?n')) (ts[i := -1]))"
        using "1.IH"(1) [OF pos True n0 len] .
      moreover have "take (Suc i) (ts[i := -1]) = take i ts @ [-1]"
        using i by (simp add: take_Suc_conv_app_nth)
      moreover have "drop (Suc i + length (bt ?n')) (ts[i := -1]) = drop (Suc i + length (bt ?n')) ts"
        by simp
      ultimately show ?thesis
        using False True rem
        by (subst writeTrits.simps) (simp add: Let_def RADIX_def b toInt8_def)
    next
      case F2: False
      let ?n' = "n div 3"
      let ?r = "n mod 3"
      have r: "isTrit ?r" using F2 by (simp add: isTrit_def) presburger
      have b: "bt n = ?r # bt ?n'" using pos F2 by (simp add: bt_low)
      have len: "Suc i + length (bt ?n') \<le> length (ts[i := ?r])"
        using "1.prems"(2) b by simp
      have n0: "0 \<le> ?n'" using pos by simp
      have i: "i < length ts" using "1.prems"(2) b by simp
      have "writeTrits ?n' (ts[i := ?r]) (Suc i)
              = Some (length (bt ?n'),
                      take (Suc i) (ts[i := ?r]) @ bt ?n' @ drop (Suc i + length (bt ?n')) (ts[i := ?r]))"
        using "1.IH"(2) [OF pos F2 n0 len] .
      moreover have "take (Suc i) (ts[i := ?r]) = take i ts @ [?r]"
        using i by (simp add: take_Suc_conv_app_nth)
      moreover have "drop (Suc i + length (bt ?n')) (ts[i := ?r]) = drop (Suc i + length (bt ?n')) ts"
        by simp
      ultimately show ?thesis
        using False F2 rem
        by (subst writeTrits.simps) (simp add: Let_def RADIX_def b toInt8_trit [OF r])
    qed
  qed
qed


lemma tritBound_mono: "m \<le> m' \<Longrightarrow> tritBound m \<le> tritBound m'"
proof (induction m' arbitrary: m)
  case 0
  then show ?case by simp
next
  case (Suc m')
  show ?case
  proof (cases "m = Suc m'")
    case True
    then show ?thesis by simp
  next
    case False
    with Suc.prems have "m \<le> m'" by simp
    from Suc.IH [OF this] show ?thesis by simp
  qed
qed

lemma minTrits_pos: "1 \<le> minTrits input basis"
  by (subst minTrits.simps) simp

lemma minTrits_upper:
  "basis = tritBound j \<Longrightarrow> input \<le> int (tritBound (j + minTrits input basis - 1))"
proof (induction input basis arbitrary: j rule: minTrits.induct)
  case (1 input basis)
  show ?case
  proof (cases "input \<le> int basis")
    case True
    then have "minTrits input basis = 1" by (subst minTrits.simps) simp
    with True "1.prems" show ?thesis by simp
  next
    case False
    then have m: "minTrits input basis = 1 + minTrits input (1 + basis * RADIX)"
      by (subst minTrits.simps) simp
    have "1 + basis * RADIX = tritBound (Suc j)" using "1.prems" by (simp add: RADIX_def)
    from "1.IH" [OF False this] show ?thesis by (simp add: m)
  qed
qed

lemma minTrits_least:
  "basis = tritBound j \<Longrightarrow> j \<le> m \<Longrightarrow> input \<le> int (tritBound m)
   \<Longrightarrow> j + minTrits input basis - 1 \<le> m"
proof (induction input basis arbitrary: j rule: minTrits.induct)
  case (1 input basis)
  show ?case
  proof (cases "input \<le> int basis")
    case True
    then have "minTrits input basis = 1" by (subst minTrits.simps) simp
    with "1.prems" show ?thesis by simp
  next
    case False
    then have mt: "minTrits input basis = 1 + minTrits input (1 + basis * RADIX)"
      by (subst minTrits.simps) simp
    have b: "1 + basis * RADIX = tritBound (Suc j)" using "1.prems" by (simp add: RADIX_def)
    have "j \<noteq> m" using False "1.prems"(1,3) by auto
    with "1.prems"(2) have "Suc j \<le> m" by simp
    from "1.IH" [OF False b this "1.prems"(3)] show ?thesis by (simp add: mt)
  qed
qed

lemma minTrits_1_upper: "input \<le> int (tritBound (minTrits input 1))"
  using minTrits_upper [of 1 1 input] by simp

lemma minTrits_1_least:
  "1 \<le> m \<Longrightarrow> input \<le> int (tritBound m) \<Longrightarrow> minTrits input 1 \<le> m"
  using minTrits_least [of 1 1 m input] by simp

lemma roundThird_facts:
  "roundThird v mod 3 = 0 \<and> v \<le> roundThird v \<and> roundThird v < v + 3"
  unfolding roundThird_def Let_def RADIX_def by presburger

lemma roundThird_ge3: "1 \<le> m \<Longrightarrow> 3 \<le> roundThird m"
  unfolding roundThird_def Let_def RADIX_def by presburger

text \<open>The trits of a positive value, filled up to the rounded length: the last tryte has
  a positive value.\<close>

lemma top_tryte_positive:
  assumes n: "0 < n" and len: "len = roundThird (minTrits n 1)"
    and D: "length D = len" "isTrits D" "tritsValue D = n"
  shows "0 < tritsValue (drop (len - 3) D)"
proof (rule ccontr)
  assume "\<not> 0 < tritsValue (drop (len - 3) D)"
  then have top: "tritsValue (drop (len - 3) D) \<le> 0" by simp
  have "r mod 3 = 0 \<Longrightarrow> v \<le> r \<Longrightarrow> 1 \<le> v \<Longrightarrow> 3 \<le> r" for r v :: nat
    by presburger
  note ge3 = this
  note rf = roundThird_facts [of "minTrits n 1", folded len]
  have l3: "3 \<le> len" "len < minTrits n 1 + 3"
  proof -
    from rf have a: "len mod 3 = 0" and b: "minTrits n 1 \<le> len" and c: "len < minTrits n 1 + 3"
      by simp_all
    from ge3 [OF a b minTrits_pos] show "3 \<le> len" .
    from c show "len < minTrits n 1 + 3" .
  qed
  have "tritsValue D = tritsValue (take (len - 3) D @ drop (len - 3) D)" by simp
  also have "\<dots> = tritsValue (take (len - 3) D)
                    + 3 ^ length (take (len - 3) D) * tritsValue (drop (len - 3) D)"
    by (rule tritsValue_append)
  also have "\<dots> \<le> tritsValue (take (len - 3) D)"
    using top by (simp add: mult_le_0_iff)
  also have "\<dots> \<le> int (tritBound (length (take (len - 3) D)))"
  proof -
    have "isTrits (take (len - 3) D)"
      using D(2) unfolding isTrits_def list_all_iff by (auto dest: in_set_takeD)
    from tritsValue_bound [OF this] show ?thesis by simp
  qed
  also have "length (take (len - 3) D) = len - 3" using D(1) by simp
  finally have le: "n \<le> int (tritBound (len - 3))" using D(3) by simp
  show False
  proof (cases "len = 3")
    case True
    with le n show False by simp
  next
    case False
    with l3 have "1 \<le> len - 3" by simp
    from minTrits_1_least [OF this le] l3 show False by simp
  qed
qed


lemma fold_update_block:
  "off + m \<le> length t \<Longrightarrow>
   fold (\<lambda>q t. t[off + q := f q]) [0..<m] t = take off t @ map f [0..<m] @ drop (off + m) t"
proof (induction m)
  case 0
  then show ?case by simp
next
  case (Suc m)
  then have IH: "fold (\<lambda>q t. t[off + q := f q]) [0..<m] t
                   = (take off t @ map f [0..<m]) @ drop (off + m) t" by simp
  have d: "drop (off + m) t = t ! (off + m) # drop (Suc (off + m)) t"
    using Suc.prems by (simp add: Cons_nth_drop_Suc)
  have l: "length (take off t @ map f [0..<m]) = off + m" using Suc.prems by simp
  have "((take off t @ map f [0..<m]) @ drop (off + m) t)[off + m := f m]
          = (take off t @ map f [0..<m]) @ (drop (off + m) t)[0 := f m]"
    by (simp only: list_update_append l) simp
  also have "\<dots> = (take off t @ map f [0..<m]) @ f m # drop (Suc (off + m)) t"
    by (simp only: d list_update_code)
  finally show ?case
    by (simp add: IH)
qed

lemma length_concat_3: "\<forall>T\<in>set Fs. length T = 3 \<Longrightarrow> length (concat Fs) = length Fs * 3"
  by (induction Fs) simp_all

lemma length_flipTryte [simp]: "length (flipTryte T) = length T"
  by (simp add: flipTryte_def)

lemma chunks3_facts:
  "length xs = 3 * k \<Longrightarrow>
     length (chunks3 xs) = k \<and> concat (chunks3 xs) = xs \<and> (\<forall>T\<in>set (chunks3 xs). length T = 3)"
proof (induction k arbitrary: xs)
  case 0
  then show ?case by (subst chunks3.simps, subst chunks3.simps, subst chunks3.simps) simp
next
  case (Suc k)
  then have ne: "xs \<noteq> []" and l: "length (drop 3 xs) = 3 * k" by auto
  have c: "chunks3 xs = take 3 xs # chunks3 (drop 3 xs)"
    using ne by (subst chunks3.simps) simp
  from Suc.IH [OF l] Suc.prems show ?case by (simp add: c)
qed

lemma isTrits_concat: "isTrits (concat Ts) \<longleftrightarrow> (\<forall>T\<in>set Ts. isTrits T)"
  by (induction Ts) simp_all

lemma trytesValue_concat:
  "\<forall>T\<in>set Ts. length T = 3 \<Longrightarrow> trytesValue (map tritsValue Ts) = tritsValue (concat Ts)"
  by (induction Ts) (simp_all add: tritsValue_append)

lemma trytesValue_snoc: "trytesValue (xs @ [x]) = trytesValue xs + 27 ^ length xs * x"
  by (induction xs) (simp_all add: algebra_simps)

lemma bitsValue_snoc:
  "bitsValue (bs @ [b]) = bitsValue bs + (if b then 2 ^ length bs else 0)"
  by (induction bs) (simp_all add: algebra_simps)

lemma bitsValue_bounds: "0 \<le> bitsValue bs \<and> bitsValue bs < 2 ^ length bs"
  by (induction bs) auto

lemma bit_bitsValue: "bit (bitsValue bs) i \<longleftrightarrow> i < length bs \<and> bs ! i"
proof (induction bs arbitrary: i)
  case Nil
  then show ?case by simp
next
  case (Cons b bs)
  show ?case
  proof (cases i)
    case 0
    then show ?thesis by (simp add: bit_0)
  next
    case (Suc j)
    have "((if b then 1 else 0) + 2 * bitsValue bs) div 2 = bitsValue bs" by simp
    then show ?thesis using Cons [of j] Suc by (simp add: bit_Suc)
  qed
qed

lemma pow2_le_tritBound: "2 ^ m \<le> tritBound (Suc m)"
  by (induction m) simp_all

lemma toInt32_id: "0 \<le> v \<Longrightarrow> v < 2 ^ 31 \<Longrightarrow> toInt32 v = v"
  unfolding toInt32_def by (rule signed_take_bit_int_eq_self) simp_all

lemma jsOr_bit:
  assumes "j \<le> 30" "length bs = j"
  shows "jsOr (bitsValue bs) (jsShl 1 j) = bitsValue (bs @ [True])"
proof -
  note bb = bitsValue_bounds [of bs]
  have p: "(2::int) ^ j < 2 ^ 31" using assms(1) by (rule pow_lt_31)
  have e: "toInt32 (bitsValue bs) = bitsValue bs"
    using bb p assms(2) by (intro toInt32_id) simp_all
  have one: "toInt32 1 = 1" by (rule toInt32_id) simp_all
  have "j mod 32 = j" using assms(1) by simp
  then have sh: "jsShl 1 j = 2 ^ j"
    using p by (simp add: jsShl_def one toInt32_id)
  have "or (bitsValue bs) (2 ^ j) = set_bit j (bitsValue bs)"
    by (simp add: set_bit_def)
  also have "\<dots> = bitsValue bs + of_bool (\<not> bit (bitsValue bs) j) * 2 ^ j"
    by (rule set_bit_eq)
  also have "\<dots> = bitsValue bs + 2 ^ j"
    by (simp add: bit_bitsValue assms(2))
  finally show ?thesis
    using p by (simp add: jsOr_def sh e toInt32_id bitsValue_snoc assms(2))
qed

lemma flipTryte_value: "tritsValue (flipTryte T) \<le> 0"
  by (simp add: flipTryte_def tritsValue_uminus)

lemma map_toInt8_uminus:
  assumes "isTrits T"
  shows "map (\<lambda>q. toInt8 (- (T ! q))) [0..<length T] = map uminus T"
proof (rule nth_equalityI)
  show "length (map (\<lambda>q. toInt8 (- (T ! q))) [0..<length T]) = length (map uminus T)" by simp
next
  fix i assume "i < length (map (\<lambda>q. toInt8 (- (T ! q))) [0..<length T])"
  then have i: "i < length T" by simp
  with assms have "isTrit (T ! i)" by (simp add: isTrits_def list_all_length)
  then have "toInt8 (- (T ! i)) = - (T ! i)" by (auto simp: isTrit_def toInt8_def)
  with i show "map (\<lambda>q. toInt8 (- (T ! q))) [0..<length T] ! i = map uminus T ! i" by simp
qed

lemma encodeSteps:
  assumes "\<forall>T\<in>set Ts. length T = 3 \<and> isTrits T" "j \<le> length Ts" "j \<le> 31"
  shows "fold encodeStep [0..<j] (concat Ts @ tail, 0)
           = (concat (map flipTryte (take j Ts)) @ concat (drop j Ts) @ tail,
              bitsValue (map (\<lambda>T. 0 \<le> tritsValue T) (take j Ts)))"
  using assms(2,3)
proof (induction j)
  case 0
  then show ?case by simp
next
  case (Suc j)
  then have j: "j < length Ts" and j30: "j \<le> 30" by simp_all
  let ?T = "Ts ! j"
  let ?pre = "concat (map flipTryte (take j Ts))"
  let ?post = "concat (drop (Suc j) Ts) @ tail"
  let ?bs = "map (\<lambda>T. 0 \<le> tritsValue T) (take j Ts)"
  have T: "length ?T = 3" "isTrits ?T" using assms(1) j by simp_all
  have "\<forall>T\<in>set (map flipTryte (take j Ts)). length T = 3"
    using assms(1) by (auto dest: in_set_takeD)
  from length_concat_3 [OF this] have lp: "length ?pre = j * 3" using j by simp
  have IH: "fold encodeStep [0..<j] (concat Ts @ tail, 0)
              = (?pre @ ?T @ ?post, bitsValue ?bs)"
    using Suc j by (simp add: Cons_nth_drop_Suc [symmetric])
  have sl: "slice (?pre @ ?T @ ?post) (j * TRITS_PER_TRYTE) (j * TRITS_PER_TRYTE + TRITS_PER_TRYTE) = ?T"
    using lp T by (simp add: slice_def TRITS_PER_TRYTE_def)
  have up: "fold (\<lambda>q t. t[j * TRITS_PER_TRYTE + q := toInt8 (- (?T ! q))]) [0..<length ?T]
              (?pre @ ?T @ ?post) = ?pre @ map uminus ?T @ ?post"
  proof -
    have "j * TRITS_PER_TRYTE + length ?T \<le> length (?pre @ ?T @ ?post)"
      using lp by (simp add: TRITS_PER_TRYTE_def)
    from fold_update_block [OF this, of "\<lambda>q. toInt8 (- (?T ! q))"]
    show ?thesis
      unfolding map_toInt8_uminus [OF T(2)] using lp T(1) by (simp add: TRITS_PER_TRYTE_def)
  qed
  have step: "encodeStep j (?pre @ ?T @ ?post, bitsValue ?bs)
                = (?pre @ flipTryte ?T @ ?post, bitsValue (?bs @ [0 \<le> tritsValue ?T]))"
  proof (cases "0 \<le> tritsValue ?T")
    case True
    then show ?thesis
      unfolding encodeStep_def prod.case Let_def sl up
      using jsOr_bit [OF j30, of ?bs] j by (simp add: flipTryte_def)
  next
    case False
    then show ?thesis
      unfolding encodeStep_def prod.case Let_def sl
      by (simp add: flipTryte_def bitsValue_snoc)
  qed
  show ?case
    using j by (simp add: IH step take_Suc_conv_app_nth)
qed


lemma valueToTrits_nonneg:
  assumes "0 \<le> n" "length (bt n) \<le> z"
  shows "valueToTrits n (replicate z 0) = Some (length (bt n), bt n @ replicate (z - length (bt n)) 0)"
proof -
  have "writeTrits n (replicate z 0) 0
          = Some (length (bt n), take 0 (replicate z 0) @ bt n @ drop (0 + length (bt n)) (replicate z 0))"
    using assms by (intro writeTrits_bt) simp_all
  then show ?thesis using assms(1) by (simp add: valueToTrits_def)
qed

lemma pascalEncode_positive:
  assumes v: "0 < v" and k31: "roundThird (minTrits v 1) div 3 \<le> 31"
  shows "\<exists>Ts T C. (\<forall>F\<in>set Ts. length F = 3 \<and> isTrits F) \<and> length T = 3 \<and> isTrits T
           \<and> 0 < tritsValue T \<and> length Ts \<le> 30
           \<and> trytesValue (map tritsValue (Ts @ [T])) = v
           \<and> length C = length Ts + 1 \<and> isTrits C
           \<and> tritsValue C = bitsValue (map (\<lambda>F. 0 \<le> tritsValue F) Ts)
           \<and> pascalEncode v = Some (concat (map flipTryte Ts) @ T @ C)"
proof -
  define len where "len = roundThird (minTrits v 1)"
  define kk where "kk = len div 3"
  define d where "d = length (bt v)"
  define D where "D = bt v @ replicate (len - d) 0"
  define Ts' where "Ts' = chunks3 D"
  define Ts where "Ts = butlast Ts'"
  define T where "T = last Ts'"
  define e where "e = bitsValue (map (\<lambda>F. 0 \<le> tritsValue F) Ts)"
  define C where "C = bt e @ replicate (kk - length (bt e)) 0"
  define P where "P = concat (map flipTryte Ts)"
  note rf = roundThird_facts [of "minTrits v 1", folded len_def]
  have len3: "3 \<le> len" unfolding len_def by (rule roundThird_ge3) (rule minTrits_pos)
  have lk: "len = 3 * kk" using rf by (simp add: kk_def) presburger
  have kk1: "1 \<le> kk" using len3 lk by simp
  have kk31: "kk \<le> 31" using k31 by (simp add: kk_def len_def)
  have dlen: "d \<le> len"
  proof -
    have "d \<le> minTrits v 1" unfolding d_def by (rule bt_length) (rule minTrits_1_upper)
    with rf show ?thesis by simp
  qed
  have D: "length D = len" "isTrits D" "tritsValue D = v"
    using dlen v by (simp_all add: D_def d_def bt_trits tritsValue_append bt_value)
  note cf = chunks3_facts [OF D(1) [unfolded lk], folded Ts'_def]
  have ne: "Ts' \<noteq> []" using cf kk1 by auto
  have split: "Ts' = Ts @ [T]" using ne by (simp add: Ts_def T_def)
  have lTs: "length Ts = kk - 1" using cf by (simp add: Ts_def)
  have all3: "\<forall>F\<in>set Ts'. length F = 3 \<and> isTrits F"
  proof -
    have "isTrits (concat Ts')" using cf D(2) by simp
    then have "\<forall>F\<in>set Ts'. isTrits F" by (simp only: isTrits_concat)
    then show ?thesis using cf by simp
  qed
  then have Ts3: "\<forall>F\<in>set Ts. length F = 3 \<and> isTrits F" and T3: "length T = 3" "isTrits T"
    by (simp_all add: split)
  have lcT: "length (concat Ts) = len - 3"
    using length_concat_3 [of Ts] Ts3 lTs lk kk1 by (simp add: algebra_simps)
  have DT: "D = concat Ts @ T" using cf by (simp add: split)
  have top: "drop (len - 3) D = T" using lcT by (simp add: DT)
  have Tpos: "0 < tritsValue T"
    using top_tryte_positive [OF v len_def D] by (simp add: top)
  have val: "trytesValue (map tritsValue (Ts @ [T])) = v"
    using trytesValue_concat [of Ts'] all3 cf D(3) by (simp add: split)
  have lP: "length P = len - 3"
    using length_concat_3 [of "map flipTryte Ts"] Ts3 lTs lk kk1 by (simp add: P_def algebra_simps)
  note eb = bitsValue_bounds [of "map (\<lambda>F. 0 \<le> tritsValue F) Ts", folded e_def]
  have "e < 2 ^ (kk - 1)" using eb lTs by simp
  also have "\<dots> \<le> int (tritBound (Suc (kk - 1)))"
    using pow2_le_tritBound [of "kk - 1"] by (metis of_nat_le_iff of_nat_numeral of_nat_power)
  finally have "e \<le> int (tritBound kk)" using kk1 by simp
  then have le: "length (bt e) \<le> kk" by (rule bt_length)
  have C: "length C = length Ts + 1" "isTrits C" "tritsValue C = e"
    using le eb kk1 lTs by (simp_all add: C_def bt_trits tritsValue_append bt_value)
  have F1: "\<bar>v\<bar> = v" using v by simp
  have F2: "valueToTrits v (replicate (encodedLength v) 0) = Some (d, D @ replicate kk 0)"
  proof -
    have el: "encodedLength v = len + kk"
      unfolding encodedLength_def F1 Let_def RADIX_def len_def [symmetric] kk_def by (rule refl)
    have "len + kk - d = (len - d) + kk" using dlen by simp
    then have "replicate (len + kk - d) (0::int) = replicate (len - d) 0 @ replicate kk 0"
      by (simp add: replicate_add)
    with valueToTrits_nonneg [of v "len + kk"] v dlen show ?thesis
      by (simp add: el d_def D_def)
  qed
  have F4: "fold encodeStep [0..<kk - 1] (D @ replicate kk 0, 0) = (P @ T @ replicate kk 0, e)"
  proof -
    have "fold encodeStep [0..<kk - 1] (concat Ts' @ replicate kk 0, 0)
            = (concat (map flipTryte (take (kk - 1) Ts')) @ concat (drop (kk - 1) Ts') @ replicate kk 0,
               bitsValue (map (\<lambda>T. 0 \<le> tritsValue T) (take (kk - 1) Ts')))"
      using all3 cf kk31 by (intro encodeSteps) simp_all
    then show ?thesis using lTs by (simp add: split P_def e_def DT)
  qed
  have F5: "\<not> tritsValue (slice (P @ T @ replicate kk 0) (len - 3) (len - 3 + len)) < 0"
  proof -
    have "slice (P @ T @ replicate kk 0) (len - 3) (len - 3 + len)
            = T @ replicate (min kk (len - 3)) 0"
      using lP T3(1) len3 by (simp add: slice_def min.commute)
    then show ?thesis using Tpos by (simp add: tritsValue_append)
  qed
  have F6a: "length P + (length T + kk) - len = kk" using lP T3(1) len3 by simp
  have F6: "valueToTrits e (replicate kk 0) = Some (length (bt e), C)"
    using valueToTrits_nonneg [of e kk] eb le by (simp add: C_def)
  have F7: "fold (\<lambda>i t. t[len + i := C ! i]) [0..<length C] (P @ T @ replicate kk 0) = P @ T @ C"
  proof -
    have lC: "length C = kk" using C(1) lTs kk1 by simp
    have "len + length C \<le> length (P @ T @ replicate kk 0)" using lP T3(1) len3 lC by simp
    moreover have "map ((!) C) [0..<length C] = C" by (rule map_nth)
    ultimately show ?thesis
      using fold_update_block [of len "length C" "P @ T @ replicate kk 0" "\<lambda>i. C ! i"]
        lP T3(1) len3 lC by simp
  qed
  have "pascalEncode v = Some (P @ T @ C)"
    using v unfolding pascalEncode_def Let_def F1 len_def [symmetric] F2 TRITS_PER_TRYTE_def
      kk_def [symmetric]
    by (simp add: F4 [unfolded One_nat_def] F5 F6a F6 F7)
  with Ts3 T3 Tpos val C lTs kk31 show ?thesis
    unfolding P_def e_def by (intro exI [of _ Ts] exI [of _ T] exI [of _ C]) simp
qed


lemma endOf_trytes:
  assumes "\<forall>F\<in>set Fs. length F = 3 \<and> tritsValue F \<le> 0" "length T = 3" "0 < tritsValue T"
  shows "endOf (concat Fs @ T @ rest) = Some (3 * length Fs + 3)"
  using assms(1)
proof (induction Fs)
  case Nil
  show ?case using assms(2,3) by (subst endOf.simps) (simp add: slice_def TRITS_PER_TRYTE_def)
next
  case (Cons F Fs)
  then have F: "length F = 3" "\<not> 0 < tritsValue F" by auto
  have "endOf (concat Fs @ T @ rest) = Some (3 * length Fs + 3)" using Cons by simp
  then show ?case
    using F by (subst endOf.simps) (simp add: slice_def TRITS_PER_TRYTE_def)
qed

lemma slice_tryte:
  assumes "\<forall>F\<in>set Fs. length F = 3" "i < length Fs"
  shows "slice (concat Fs @ rest) (i * 3) ((i + 1) * 3) = Fs ! i"
  using assms
proof (induction Fs arbitrary: i)
  case Nil
  then show ?case by simp
next
  case (Cons F Fs)
  show ?case
  proof (cases i)
    case 0
    then show ?thesis using Cons.prems by (simp add: slice_def)
  next
    case (Suc j)
    have "slice (concat Fs @ rest) (j * 3) ((j + 1) * 3) = Fs ! j"
      using Cons.prems Suc by (intro Cons.IH) simp_all
    then show ?thesis using Cons.prems Suc by (simp add: slice_def)
  qed
qed

lemma jsShr_bit:
  assumes "0 \<le> e" "e < 2 ^ 31" "i < 32"
  shows "(jsAnd (jsShr e i) 1 \<noteq> 0) = bit e i"
proof -
  have e: "toInt32 e = e" using assms(1,2) by (rule toInt32_id)
  have "i mod 32 = i" using assms(3) by simp
  then have sh: "jsShr e i = drop_bit i e" by (simp add: jsShr_def e)
  have d0: "0 \<le> drop_bit i e" using assms(1) by simp
  have "e div 2 ^ i \<le> e div 1" using assms(1) by (intro zdiv_mono2) simp_all
  then have "drop_bit i e \<le> e" by (simp add: drop_bit_eq_div)
  then have d1: "drop_bit i e < 2 ^ 31" using assms(2) by simp
  have one: "toInt32 1 = 1" by (rule toInt32_id) simp_all
  have "jsAnd (jsShr e i) 1 = and (drop_bit i e) 1"
    by (simp add: jsAnd_def sh toInt32_id [OF d0 d1] one)
  also have "\<dots> = drop_bit i e mod 2" by (rule and_one_eq)
  finally show ?thesis by (simp add: bit_iff_odd_drop_bit odd_iff_mod_2_eq_one)
qed

lemma flipTryte_decode:
  "(if 0 \<le> tritsValue F then - tritsValue (flipTryte F) else tritsValue (flipTryte F))
     = tritsValue F"
  by (simp add: flipTryte_def tritsValue_uminus)

lemma pascalDecode_shape:
  assumes Ts: "\<forall>F\<in>set Ts. length F = 3 \<and> isTrits F"
    and T: "length T = 3" "0 < tritsValue T"
    and l30: "length Ts \<le> 30"
    and C: "length C = length Ts + 1" "tritsValue C = bitsValue (map (\<lambda>F. 0 \<le> tritsValue F) Ts)"
  shows "pascalDecode (concat (map flipTryte Ts) @ T @ C @ rest)
           = Some \<lparr>decValue = trytesValue (map tritsValue (Ts @ [T])),
                    decEnd = length (concat (map flipTryte Ts) @ T @ C)\<rparr>"
proof -
  define Fs where "Fs = map flipTryte Ts"
  define k where "k = length Ts + 1"
  define e where "e = bitsValue (map (\<lambda>F. 0 \<le> tritsValue F) Ts)"
  define E where "E = concat Fs @ T @ C @ rest"
  have Fs3: "\<forall>F\<in>set Fs. length F = 3 \<and> tritsValue F \<le> 0"
    using Ts by (simp add: Fs_def flipTryte_value)
  have all3: "\<forall>F\<in>set (Fs @ [T]). length F = 3" using Fs3 T by simp
  have lFs: "length (concat Fs) = length Ts * 3"
    using length_concat_3 [of Fs] Fs3 by (simp add: Fs_def)
  have lall: "length (concat (Fs @ [T])) = k * 3"
    using length_concat_3 [OF all3] by (simp add: k_def Fs_def)
  have E2: "E = concat (Fs @ [T]) @ C @ rest" by (simp add: E_def)
  note eb = bitsValue_bounds [of "map (\<lambda>F. 0 \<le> tritsValue F) Ts", folded e_def]
  have e31: "e < 2 ^ 31"
  proof -
    have "(2::int) ^ length Ts < 2 ^ 31" using l30 by (rule pow_lt_31)
    with eb show ?thesis by simp
  qed
  have nz: "\<not> (length E \<ge> length ZERO \<and> E ! 0 = ZERO ! 0 \<and> E ! 1 = ZERO ! 1
               \<and> E ! 2 = ZERO ! 2 \<and> E ! 3 = ZERO ! 3)"
  proof (cases Ts)
    case Nil
    with C have "length C = 1" "tritsValue C = 0" by simp_all
    then obtain c where "C = [c]" "c = 0" by (cases C) auto
    with Nil T(1) show ?thesis by (simp add: E_def Fs_def ZERO_def nth_append)
  next
    case (Cons F Ts')
    define G where "G = flipTryte F"
    have G: "length G = 3" "tritsValue G \<le> 0" using Ts Cons by (simp_all add: G_def flipTryte_value)
    then obtain a b c where abc: "G = [a, b, c]"
      by (cases G; cases "tl G"; cases "tl (tl G)") auto
    have "E = a # b # c # (concat (map flipTryte Ts') @ T @ C @ rest)"
      by (simp add: E_def Fs_def Cons G_def [symmetric] abc)
    then have "E ! 0 = a" "E ! 1 = b" "E ! 2 = c" by simp_all
    with G(2) abc show ?thesis by (auto simp: ZERO_def)
  qed
  have en: "endOf E = Some (k * 3)"
    using endOf_trytes [OF Fs3 T, of "C @ rest"] by (simp add: E_def k_def Fs_def)
  have enc: "tritsValue (slice E (k * 3) (k * 3 + k)) = e"
  proof -
    have "slice E (k * 3) (k * 3 + k) = C"
      unfolding E2 slice_def using lall C(1) by (simp add: k_def)
    then show ?thesis by (simp add: C(2) e_def)
  qed
  define xs where "xs = map tritsValue (Ts @ [T])"
  have lxs: "length xs = k" by (simp add: xs_def k_def)
  have step: "decodeStep E e i r = r + 27 ^ i * (xs ! i)" if i: "i < k" for i r
  proof -
    have sl: "slice E (i * TRITS_PER_TRYTE) ((i + 1) * TRITS_PER_TRYTE) = (Fs @ [T]) ! i"
      unfolding E2 TRITS_PER_TRYTE_def using all3 i by (intro slice_tryte) (simp_all add: k_def Fs_def)
    have b: "(jsAnd (jsShr e i) 1 \<noteq> 0) = bit e i"
      using eb e31 i l30 by (intro jsShr_bit) (simp_all add: k_def)
    show ?thesis
    proof (cases "i < length Ts")
      case True
      have "bit e i = (0 \<le> tritsValue (Ts ! i))" using True by (simp add: e_def bit_bitsValue)
      moreover have "(Fs @ [T]) ! i = flipTryte (Ts ! i)" using True by (simp add: Fs_def nth_append)
      moreover have "xs ! i = tritsValue (Ts ! i)"
        using True by (simp add: xs_def nth_append)
      ultimately show ?thesis
        unfolding decodeStep_def Let_def sl b
        using flipTryte_decode [of "Ts ! i"] by (simp split: if_splits)
    next
      case False
      with i have il: "i = length Ts" by (simp add: k_def)
      have "\<not> bit e i" using il by (simp add: e_def bit_bitsValue)
      moreover have "(Fs @ [T]) ! i = T" using il by (simp add: Fs_def nth_append)
      moreover have "xs ! i = tritsValue T"
        using il by (simp add: xs_def nth_append)
      ultimately show ?thesis unfolding decodeStep_def Let_def sl b by simp
    qed
  qed
  have fld: "fold (decodeStep E e) [0..<j] 0 = trytesValue (take j xs)"
    if "j \<le> k" for j
    using that
  proof (induction j)
    case 0
    then show ?case by simp
  next
    case (Suc j)
    then have j: "j < k" by simp
    then have jl: "j < length xs" by (simp add: lxs)
    have "length (take j xs) = j" using jl by simp
    then show ?case
      using Suc j by (simp add: step take_Suc_conv_app_nth [OF jl] trytesValue_snoc)
  qed
  have res: "fold (decodeStep E e) [0..<k] 0 = trytesValue (map tritsValue (Ts @ [T]))"
    using fld [of k] lxs unfolding xs_def by simp
  have k3: "k * 3 div TRITS_PER_TRYTE = k" by (simp add: TRITS_PER_TRYTE_def)
  have "pascalDecode E = Some \<lparr>decValue = trytesValue (map tritsValue (Ts @ [T])),
                                 decEnd = k * 3 + k\<rparr>"
    unfolding pascalDecode_def if_not_P [OF nz] en bind.bind_lunit Let_def k3 enc res
    by (rule refl)
  moreover have "length (concat (map flipTryte Ts) @ T @ C) = k * 3 + k"
    using lFs T(1) C(1) by (simp add: Fs_def k_def)
  ultimately show ?thesis by (simp add: E_def Fs_def)
qed


lemma tritBound_pow: "2 * tritBound m + 1 = 3 ^ m"
  by (induction m) simp_all

lemma safe_integer_trytes:
  assumes "v \<le> 2 ^ 53"
  shows "roundThird (minTrits v 1) div 3 \<le> 12"
proof -
  have "2 * tritBound 35 + 1 = (3::nat) ^ 35" by (rule tritBound_pow)
  then have "tritBound 35 = 25015772549499853" by simp
  then have "v \<le> int (tritBound 35)" using assms by simp
  then have "minTrits v 1 \<le> 35" by (intro minTrits_1_least) simp_all
  moreover have "r < m + 3 \<Longrightarrow> m \<le> 35 \<Longrightarrow> r div 3 \<le> 12" for r m :: nat
    by presburger
  ultimately show ?thesis using roundThird_facts [of "minTrits v 1"] by blast
qed

text \<open>The round trip for the values from 0 to \<open>2^53\<close>, whatever follows the encoding in the
  buffer that \<open>pascalDecode\<close> is given.\<close>

lemma pascalDecode_pascalEncode:
  assumes "0 \<le> v" "v \<le> 2 ^ 53"
  shows "\<exists>enc. pascalEncode v = Some enc
           \<and> pascalDecode (enc @ rest) = Some \<lparr>decValue = v, decEnd = length enc\<rparr>"
proof (cases "v = 0")
  case True
  then show ?thesis by (simp add: pascalEncode_def pascalDecode_def ZERO_def)
next
  case False
  with assms(1) have pos: "0 < v" by simp
  have "roundThird (minTrits v 1) div 3 \<le> 31"
    using safe_integer_trytes [OF assms(2)] by simp
  from pascalEncode_positive [OF pos this] obtain Ts T C where
    Ts: "\<forall>F\<in>set Ts. length F = 3 \<and> isTrits F" and T: "length T = 3" "0 < tritsValue T"
    and l30: "length Ts \<le> 30" and val: "trytesValue (map tritsValue (Ts @ [T])) = v"
    and C: "length C = length Ts + 1" "tritsValue C = bitsValue (map (\<lambda>F. 0 \<le> tritsValue F) Ts)"
    and enc: "pascalEncode v = Some (concat (map flipTryte Ts) @ T @ C)"
    by blast
  show ?thesis
    unfolding enc using pascalDecode_shape [OF Ts T l30 C, of rest, unfolded val] by simp
qed

text \<open>
  C5.  The round trip through \<open>pascalEncode\<close> and \<open>pascalDecode\<close> is claimed for
  every integer in range, negative ones included.  For a negative value \<open>writeTrits\<close>
  divides by three with \<^verbatim>\<open>Math.floor\<close>, reaches -1 and stays there: \<open>pascalEncode\<close>
  has no result, here at -243.  From 0 to \<open>2^53\<close> the round trip holds
  (\<open>pascalDecode_pascalEncode\<close>).
\<close>

theorem pascalEncode_minus_243: "pascalEncode (-243) = None"
  by (rule pascalEncode_negative) simp


section \<open>The state of the channel\<close>

lemma createMessage_Some:
  assumes "createMessage cs message = Some (m, cs')"
  shows "\<exists>t. newMerkleTree (seed cs) (start cs + count cs) (nextCount cs) (security cs) = Some t
           \<and> cs' = advance cs (addressTrits t)"
  using assms unfolding createMessage_def Let_def
  by (auto split: if_splits Option.bind_splits prod.splits)



text \<open>On the states that \<^verbatim>\<open>createChannel\<close> and \<^verbatim>\<open>createMessage\<close> produce, a call of
  \<^verbatim>\<open>createMessage\<close> with a message of trytes returns unless the search of the nonce does
  not.\<close>

lemma indexOf_Some: "c \<in> set xs \<Longrightarrow> \<exists>i. indexOf xs c = Some i"
  by (induction xs) auto

lemma toTrits_Some:
  "list_all (\<lambda>c. c \<in> set ALPHABET) s \<Longrightarrow> \<exists>t. toTrits s = Some t \<and> length t = 3 * length s"
proof (induction s)
  case Nil
  then show ?case by simp
next
  case (Cons c s)
  then obtain t where t: "toTrits s = Some t" "length t = 3 * length s" by auto
  from Cons.prems obtain i where i: "indexOf ALPHABET c = Some i"
    using indexOf_Some [of c ALPHABET] by auto
  have "i < 27 \<and> length (TRYTES_TRITS ! i) = 3"
  proof -
    have b: "indexOf xs c = Some i \<Longrightarrow> i < length xs" for xs :: string
      by (induction xs arbitrary: i) (auto split: if_splits)
    from b [OF i] have i27: "i < 27" by (simp add: ALPHABET_def)
    have "\<forall>t\<in>set TRYTES_TRITS. length t = 3"
      unfolding TRYTES_TRITS_def by simp
    moreover have "length TRYTES_TRITS = 27" unfolding TRYTES_TRITS_def by simp
    ultimately show ?thesis using i27 by simp
  qed
  with t i show ?case by simp
qed

lemma length_state_mask:
  assumes "length (state S) = STATE_LENGTH"
  shows "length (state (snd (mask p S))) = STATE_LENGTH"
proof -
  let ?I = "\<lambda>s :: trits \<times> curl \<times> trits. length (state (fst (snd s))) = STATE_LENGTH"
  have "?I (fold maskChunk [0..<(length p + HASH_LENGTH - 1) div HASH_LENGTH]
             (p, S, rate S HASH_LENGTH))"
  proof (rule fold_invariant)
    show "?I (p, S, rate S HASH_LENGTH)" using assms by simp
  next
    fix c and s :: "trits \<times> curl \<times> trits"
    assume "?I s"
    then show "?I (maskChunk c s)"
      by (cases s) (simp add: maskChunk_def Let_def split_beta STATE_LENGTH_def)
  qed
  then show ?thesis by (simp add: mask_def Let_def split_beta)
qed

lemma createMessage_returns:
  assumes seed: "isHash (seed cs)"
    and sec: "security cs \<in> {1, 2, 3}"
    and key: "case sideKey cs of None \<Rightarrow> True | Some k \<Rightarrow> list_all (\<lambda>c. c \<in> set ALPHABET) k"
    and fresh: "count cs = 1" "nextCount cs = 1" "index cs = 0"
    and msg: "isTrytes message" "3 * int (length message) \<le> 2 ^ 53"
  shows "createMessage cs message \<noteq> None
         \<or> (\<exists>st. length st = STATE_LENGTH
                \<and> search st (security cs) (HASH_LENGTH div 3) 0 = None)"
proof -
  from seed obtain sd where sd: "toTrits (seed cs) = Some sd"
    using toTrits_Some [of "seed cs"] by (auto simp: isHash_def)
  define leaf where "leaf j = (let (a, k) = generateAddress sd j (security cs)
                              in MerkleNode None None 1 a (Some k))" for j
  define node where "node j = MerkleNode (Some (leaf j)) None 1 (addressTrits (leaf j)) None" for j
  have tree: "newMerkleTree (seed cs) j 1 (security cs) = Some (node j)" for j
    by (simp add: newMerkleTree_def sd buildTree_single leaf_def node_def split_beta Let_def)
  from msg obtain mt where mt: "toTrits message = Some mt" "length mt = 3 * length message"
    using toTrits_Some [of message] by (auto simp: isTrytes_def)
  have p0: "pascalEncode 0 = Some ZERO" by (simp add: pascalEncode_def)
  from pascalDecode_pascalEncode [of "int (length mt)" "[]"] msg(2) mt(2)
  obtain lt where lt: "pascalEncode (int (length mt)) = Some lt" by auto
  define kstr where "kstr = (case sideKey cs of None \<Rightarrow> replicate 81 CHR ''9''
                             | Some k \<Rightarrow> if k = [] then replicate 81 CHR ''9'' else k)"
  have "list_all (\<lambda>c. c \<in> set ALPHABET) kstr"
    using key by (auto simp: kstr_def ALPHABET_def list_all_iff split: option.splits)
  then obtain kt where kt: "toTrits kstr = Some kt" using toTrits_Some by blast
  define pk where "pk = privateKeyFromSubseed (subseed sd (start cs)) (security cs)"
  have sub: "getSubtree (node (start cs)) 0 = (pk, [])"
    by (simp add: getSubtree_def node_def leaf_def generateAddress_def Let_def pk_def)
  define S1 where "S1 = absorb (absorb (absorb (reset (newCurl 27)) kt 0 (length kt))
                          (addressTrits (node (start cs))) 0 (length (addressTrits (node (start cs)))))
                          (concatenate [ZERO, lt]) 0 (length (concatenate [ZERO, lt]))"
  define M where "M = mask (concatenate [addressTrits (node (start cs + 1)), mt]) S1"
  have l1: "length (state S1) = STATE_LENGTH"
    by (simp add: S1_def reset_def newCurl_def STATE_LENGTH_def)
  have l2: "length (state (snd M)) = STATE_LENGTH"
    unfolding M_def using l1 by (rule length_state_mask)
  show ?thesis
  proof (cases "search (rate (snd M) STATE_LENGTH) (security cs) (HASH_LENGTH div 3) 0")
    case None
    moreover have "length (rate (snd M) STATE_LENGTH) = STATE_LENGTH"
      using l2 by (simp add: length_rate)
    ultimately show ?thesis by blast
  next
    case (Some nonce)
    define N where "N = mask nonce (snd M)"
    have l3: "length (state (snd N)) = STATE_LENGTH"
      unfolding N_def using l2 by (rule length_state_mask)
    have lh: "length (rate (snd N) HASH_LENGTH) = 243"
      using l3 by (simp add: length_rate STATE_LENGTH_def HASH_LENGTH_def)
    have L: "0 < security cs" "27 * security cs \<le> 81" using sec by auto
    have "\<exists>sig. signature (rate (snd N) HASH_LENGTH) pk = Some sig"
      unfolding pk_def privateKeyFromSubseed_blocks [OF L(1)]
      using signature_blocks [OF lh L(2)] by simp
    then obtain sig where sig: "signature (rate (snd N) HASH_LENGTH) pk = Some sig" ..
    note sr = Some [unfolded M_def S1_def]
    note sg = sig [unfolded N_def M_def S1_def]
    have "createMessage cs message \<noteq> None"
      unfolding createMessage_def fresh tree bind.bind_lunit Let_def mt(1) p0 lt sub
        fst_conv snd_conv kstr_def [symmetric] kt split_beta sr sg
      using msg(1) by (simp add: concatenate_def HASH_LENGTH_def p0)
    then show ?thesis ..
  qed
qed

lemma createChannel_fresh:
  assumes "createChannel sd sec md key = Some cs"
  shows "isHash (seed cs) \<and> security cs \<in> {1, 2, 3}
         \<and> (case sideKey cs of None \<Rightarrow> True | Some k \<Rightarrow> list_all (\<lambda>c. c \<in> set ALPHABET) k)
         \<and> count cs = 1 \<and> nextCount cs = 1 \<and> index cs = 0"
proof -
  have nine: "CHR ''9'' \<in> set ALPHABET" by (simp add: ALPHABET_def)
  from assms show ?thesis
    unfolding createChannel_def Let_def
    by (auto simp: isTrytes_def list_all_iff nine split: if_splits)
qed

lemma createMessage_fresh:
  assumes "createMessage cs message = Some (m, cs')"
    and "count cs = 1" "nextCount cs = 1" "index cs = 0"
  shows "seed cs' = seed cs \<and> security cs' = security cs \<and> sideKey cs' = sideKey cs
         \<and> count cs' = 1 \<and> nextCount cs' = 1 \<and> index cs' = 0"
  using createMessage_Some [OF assms(1)] assms(2-4) by (auto simp: advance_def)

end
